theory Spec2Isabelle
  imports Complex_Main
begin

chapter \<open>The command execution pipeline of becas-Score\<close>

text \<open>
  The development embeds the parts of the JavaScript sources that the specification's
  testable properties talk about: the event bus (\<^verbatim>\<open>src/core/eventBus.js\<close>), the
  workflow engine (\<^verbatim>\<open>src/workflow/actionHandler.js\<close>), the action resolver
  (\<^verbatim>\<open>src/core/dynamicHandler.js\<close>), the response generator
  (\<^verbatim>\<open>src/ai/llmService.js\<close>) and the approval gate (\<^verbatim>\<open>src/core/bot.js\<close>).
  Part I holds the definitions, Part II the properties.

  Conventions. A JavaScript string is a \<^typ>\<open>string\<close>; one \<^typ>\<open>char\<close> stands for one
  code unit, so the model speaks about texts whose code units are below 256. An
  \<^verbatim>\<open>async\<close> function is modelled by the value it settles with; a rejected promise or a
  thrown \<^verbatim>\<open>Error\<close> is the constructor \<open>Throws\<close> carrying the message.
\<close>

section \<open>Part I: the model\<close>

subsection \<open>JavaScript values and completions\<close>

datatype jsval = JUndefined | JNull | JBool bool | JNum int | JStr string | JObj

text \<open>The truthiness test of \<^verbatim>\<open>if (v)\<close>.\<close>

fun truthy :: "jsval \<Rightarrow> bool" where
  "truthy JUndefined = False"
| "truthy JNull = False"
| "truthy (JBool b) = b"
| "truthy (JNum n) = (n \<noteq> 0)"
| "truthy (JStr s) = (s \<noteq> [])"
| "truthy JObj = True"

datatype 'a completion = Returns 'a | Throws string

subsection \<open>JavaScript strings and regular expressions\<close>

text \<open>
  The double quote, the single quote and the line feed.
\<close>

definition dq :: char where "dq = CHR 0x22"
definition sq :: char where "sq = CHR 0x27"
definition nl :: char where "nl = CHR 0x0A"

text \<open>
  \<^verbatim>\<open>String.prototype.toLowerCase\<close> on code units below 256: the ASCII capitals and the
  Latin-1 capitals (all of U+00C0 to U+00DE but the multiplication sign) move up by 32.
\<close>

definition lowerChar :: "char \<Rightarrow> char" where
  "lowerChar c =
     (let n = (of_char c :: nat)
      in if (65 \<le> n \<and> n \<le> 90) \<or> (192 \<le> n \<and> n \<le> 214) \<or> (216 \<le> n \<and> n \<le> 222)
         then char_of (n + 32) else c)"

definition toLowerCase :: "string \<Rightarrow> string" where
  "toLowerCase s = map lowerChar s"

text \<open>
  The character classes \<^verbatim>\<open>\s\<close> (also what \<^verbatim>\<open>trim\<close> strips), \<^verbatim>\<open>\d\<close> and \<^verbatim>\<open>\w\<close>, on code
  units below 256.
\<close>

definition isSpace :: "char \<Rightarrow> bool" where
  "isSpace c = ((of_char c :: nat) \<in> {9, 10, 11, 12, 13, 32, 160})"

definition isDigit :: "char \<Rightarrow> bool" where
  "isDigit c = (48 \<le> (of_char c :: nat) \<and> (of_char c :: nat) \<le> 57)"

definition isWordChar :: "char \<Rightarrow> bool" where
  "isWordChar c =
     (let n = (of_char c :: nat)
      in (48 \<le> n \<and> n \<le> 57) \<or> (65 \<le> n \<and> n \<le> 90) \<or> n = 95 \<or> (97 \<le> n \<and> n \<le> 122))"

definition startsWith :: "string \<Rightarrow> string \<Rightarrow> bool" where
  "startsWith s p = (take (length p) s = p)"

definition startsWithChar :: "string \<Rightarrow> char \<Rightarrow> bool" where
  "startsWithChar s c = (case s of [] \<Rightarrow> False | d # r \<Rightarrow> d = c)"

definition endsWithChar :: "string \<Rightarrow> char \<Rightarrow> bool" where
  "endsWithChar s c = (s \<noteq> [] \<and> last s = c)"

text \<open>The comparison of a literal word under the \<^verbatim>\<open>i\<close> flag; the word is in lower case.\<close>

definition startsWithIgnoreCase :: "string \<Rightarrow> string \<Rightarrow> bool" where
  "startsWithIgnoreCase s w = (toLowerCase (take (length w) s) = w)"

text \<open>\<^verbatim>\<open>s.includes(t)\<close>.\<close>

fun includesStr :: "string \<Rightarrow> string \<Rightarrow> bool" where
  "includesStr [] t = (t = [])"
| "includesStr (c # cs) t = (startsWith (c # cs) t \<or> includesStr cs t)"

definition trim :: "string \<Rightarrow> string" where
  "trim s = rev (dropWhile isSpace (rev (dropWhile isSpace s)))"

text \<open>\<^verbatim>\<open>s.split(sep)\<close> and \<^verbatim>\<open>lines.join(sep)\<close> for a separator of one character.\<close>

fun splitOn :: "char \<Rightarrow> string \<Rightarrow> string list" where
  "splitOn sep [] = [[]]"
| "splitOn sep (c # cs) =
     (case splitOn sep cs of
        [] \<Rightarrow> (if c = sep then [[], []] else [[c]])
      | l # ls \<Rightarrow> if c = sep then [] # l # ls else (c # l) # ls)"

fun joinWith :: "char \<Rightarrow> string list \<Rightarrow> string" where
  "joinWith sep [] = []"
| "joinWith sep [l] = l"
| "joinWith sep (l # ls) = l @ sep # joinWith sep ls"

definition indexOfChar :: "char \<Rightarrow> string \<Rightarrow> nat option" where
  "indexOfChar c s = (if c \<in> set s then Some (length (takeWhile (\<lambda>x. x \<noteq> c) s)) else None)"

definition lastIndexOfChar :: "char \<Rightarrow> string \<Rightarrow> nat option" where
  "lastIndexOfChar c s =
     (if c \<in> set s then Some (length s - 1 - length (takeWhile (\<lambda>x. x \<noteq> c) (rev s))) else None)"

definition countChar :: "char \<Rightarrow> string \<Rightarrow> nat" where
  "countChar c s = length (filter (\<lambda>x. x = c) s)"

text \<open>
  \<^verbatim>\<open>parseInt\<close> of a run of decimal digits, and the decimal text of a number as a
  template literal prints it.
\<close>

definition parseInt :: "string \<Rightarrow> nat" where
  "parseInt digits = foldl (\<lambda>n c. 10 * n + ((of_char c :: nat) - 48)) 0 digits"

fun showNat :: "nat \<Rightarrow> string" where
  "showNat n = (if n < 10 then [char_of (48 + n)] else showNat (n div 10) @ [char_of (48 + n mod 10)])"

declare showNat.simps [simp del]

text \<open>
  \<^verbatim>\<open>s.replace(/re/g, ...)\<close>. The matcher \<open>m\<close> tells, for the text that starts at the
  current position, whether the expression matches there, and then gives the
  replacement and the text after the match. The scan goes from left to right; after a
  match it continues behind the match, otherwise one character is copied. Every
  expression of this development matches at least one character; a matcher that
  consumed nothing would be treated as no match.
\<close>

function replaceAll :: "(string \<Rightarrow> (string \<times> string) option) \<Rightarrow> string \<Rightarrow> string" where
  "replaceAll m [] = []"
| "replaceAll m (c # cs) =
     (case m (c # cs) of
        None \<Rightarrow> c # replaceAll m cs
      | Some (out, rest) \<Rightarrow>
          if length rest \<le> length cs then out @ replaceAll m rest else c # replaceAll m cs)"
  by pat_completeness auto
termination
  by (relation "measure (\<lambda>(m, s). length s)") auto

text \<open>\<^verbatim>\<open>s.match(/re/)\<close>: the capture of the leftmost match.\<close>

fun firstMatch :: "(string \<Rightarrow> 'a option) \<Rightarrow> string \<Rightarrow> 'a option" where
  "firstMatch m [] = m []"
| "firstMatch m (c # cs) = (case m (c # cs) of Some r \<Rightarrow> Some r | None \<Rightarrow> firstMatch m cs)"

subsection \<open>EventBus: \<^verbatim>\<open>src/core/eventBus.js\<close>\<close>

text \<open>
  One entry of \<^verbatim>\<open>this.listeners.get(event)\<close>. The callback is the awaited outcome of
  \<^verbatim>\<open>listener.callback(data)\<close>; \<open>exclusive\<close> is the value of
  \<^verbatim>\<open>listener.options.exclusive\<close>.
\<close>

record 'd listener =
  lid :: "string \<times> nat"
  callback :: "'d \<Rightarrow> jsval completion"
  priority :: int
  extensionId :: "string option"
  exclusive :: jsval

record 'd eventBus =
  listeners :: "string \<rightharpoonup> 'd listener list"
  nextId :: nat

definition initEventBus :: "'d eventBus" where
  "initEventBus = \<lparr>listeners = Map.empty, nextId = 1\<rparr>"

text \<open>
  \<^verbatim>\<open>Array.prototype.sort((a, b) => b.priority - a.priority)\<close> is a stable sort by
  descending priority; the new entry is pushed at the end before sorting.
\<close>

definition addListener ::
  "'d eventBus \<Rightarrow> string \<Rightarrow> ('d \<Rightarrow> jsval completion) \<Rightarrow> int \<Rightarrow> string option \<Rightarrow> jsval
     \<Rightarrow> (string \<times> nat) \<times> 'd eventBus" where
  "addListener bus event cb prio ext excl =
     (let old = (case listeners bus event of None \<Rightarrow> [] | Some ls \<Rightarrow> ls);
          ident = (event, nextId bus);
          entry = \<lparr>lid = ident, callback = cb, priority = prio, extensionId = ext,
                   exclusive = excl\<rparr>
      in (ident,
          bus\<lparr>listeners := (listeners bus)(event \<mapsto> sort_key (\<lambda>l. - priority l) (old @ [entry])),
              nextId := nextId bus + 1\<rparr>))"

text \<open>
  The \<^verbatim>\<open>for (const listener of listeners)\<close> loop of \<^verbatim>\<open>emit\<close>. The state of the loop
  is the flag \<^verbatim>\<open>handled\<close>; the second component lists what every invoked callback
  settled with, in invocation order. A callback that throws is logged and skipped.
\<close>

fun emit_loop ::
  "'d listener list \<Rightarrow> 'd \<Rightarrow> bool \<Rightarrow> jsval completion list \<Rightarrow> bool \<times> jsval completion list" where
  "emit_loop [] d handled invoked = (handled, invoked)"
| "emit_loop (l # ls) d handled invoked =
     (case callback l d of
        Throws e \<Rightarrow> emit_loop ls d handled (invoked @ [Throws e])
      | Returns r \<Rightarrow>
          if r = JBool True
          then (if truthy (exclusive l) then (True, invoked @ [Returns r])
                else emit_loop ls d True (invoked @ [Returns r]))
          else emit_loop ls d handled (invoked @ [Returns r]))"

definition emit :: "'d eventBus \<Rightarrow> string \<Rightarrow> 'd \<Rightarrow> bool \<times> jsval completion list" where
  "emit bus event d =
     (case listeners bus event of
        None \<Rightarrow> (False, [])
      | Some ls \<Rightarrow> if length ls = 0 then (False, []) else emit_loop ls d False [])"

text \<open>
  A bus built with \<^verbatim>\<open>addListener\<close>, used to run \<^verbatim>\<open>emit\<close> on concrete subscriptions:
  three subscribers of \<^verbatim>\<open>interaction\<close> (one returns the number 1, one throws, one is
  exclusive and returns a boolean that depends on the payload) and one subscriber of
  \<^verbatim>\<open>other\<close> that returns a non-empty string.
\<close>

definition demoBus :: "nat eventBus" where
  "demoBus =
     snd (addListener
       (snd (addListener
         (snd (addListener
           (snd (addListener initEventBus ''interaction'' (\<lambda>d. Returns (JNum 1)) 5 None JUndefined))
           ''interaction'' (\<lambda>d. Throws ''boom'') 7 None JUndefined))
         ''interaction'' (\<lambda>d. Returns (JBool (d = 0))) 0 (Some ''ext'') (JBool True)))
       ''other'' (\<lambda>d. Returns (JStr ''yes'')) 0 None JUndefined)"

subsection \<open>WorkflowEngine: \<^verbatim>\<open>src/workflow/actionHandler.js\<close>\<close>

text \<open>
  A step of a plan. \<open>action\<close> is \<^verbatim>\<open>step.params.action\<close>, \<open>None\<close> when
  \<^verbatim>\<open>step.params\<close> or the action is missing or falsy; \<open>critical\<close> is the truthiness of
  \<^verbatim>\<open>step.critical\<close>. Every element of \<^verbatim>\<open>plan.steps\<close> is taken to be an object.
\<close>

record step =
  sid :: string
  tool :: string
  action :: "string option"
  critical :: bool

text \<open>
  What the external Action Executor (\<^verbatim>\<open>_executeDiscordRequest\<close>, which only forwards to
  \<^verbatim>\<open>this.actionHandler\<close>) settles with: a result object with its \<^verbatim>\<open>success\<close> flag and the
  text of its \<^verbatim>\<open>error\<close> field, or an exception. A settled value that is not an object
  makes \<^verbatim>\<open>result.success\<close> throw and is covered by \<open>Threw\<close>. The executor is a parameter
  of the model; it threads a state \<open>'w\<close> of the outside world.
\<close>

datatype step_outcome = Returned bool string | Threw string

type_synonym 'w executor = "'w \<Rightarrow> step \<Rightarrow> step_outcome \<times> 'w"

definition executeStep :: "'w executor \<Rightarrow> 'w \<Rightarrow> step \<Rightarrow> step_outcome \<times> 'w" where
  "executeStep exec w s =
     (case action s of
        None \<Rightarrow> (Threw ''Invalid step configuration'', w)
      | Some a \<Rightarrow>
          if tool s = ''discord.request'' then exec w s
          else (Threw (''Unknown tool: '' @ tool s), w))"

text \<open>
  The entries pushed on \<^verbatim>\<open>results\<close>: \<^verbatim>\<open>{stepId, success, result}\<close> after a step that
  settled, \<^verbatim>\<open>{stepId, success: false, error}\<close> from a \<^verbatim>\<open>catch\<close>.
\<close>

datatype step_result = ResultEntry string bool | ErrorEntry string string

text \<open>
  The state of the sequential loop. \<open>results\<close> is the local array; \<open>linked\<close> tells
  whether \<^verbatim>\<open>workflow.results = results\<close> has run, that is whether the registry's record
  shares the local array (later pushes are then visible in the record);
  \<open>cursor\<close> is \<^verbatim>\<open>workflow.currentStep\<close>.
\<close>

record 'w seq_state =
  results :: "step_result list"
  linked :: bool
  cursor :: "nat option"
  world :: 'w

text \<open>
  \<^verbatim>\<open>_executeSequential\<close>: the \<^verbatim>\<open>for\<close> loop from index \<open>i\<close> on. The \<^verbatim>\<open>throw\<close> for a
  critical step that reported failure sits inside the \<^verbatim>\<open>try\<close>, so the \<^verbatim>\<open>catch\<close> of the
  same iteration receives it, pushes its own entry and rethrows.
\<close>

fun executeSequential ::
  "'w executor \<Rightarrow> step list \<Rightarrow> nat \<Rightarrow> 'w seq_state \<Rightarrow> unit completion \<times> 'w seq_state" where
  "executeSequential exec [] i st = (Returns (), st)"
| "executeSequential exec (s # rest) i st =
     (case executeStep exec (world st) s of
        (Threw msg, w') \<Rightarrow>
          let st' = st\<lparr>results := results st @ [ErrorEntry (sid s) msg], world := w'\<rparr>
          in if critical s then (Throws msg, st') else executeSequential exec rest (i + 1) st'
      | (Returned ok err, w') \<Rightarrow>
          let st1 = st\<lparr>results := results st @ [ResultEntry (sid s) ok], linked := True,
                       cursor := Some (i + 1), world := w'\<rparr>
          in if \<not> ok \<and> critical s
             then let msg = ''Critical step '' @ sid s @ '' failed: '' @ err;
                      st2 = st1\<lparr>results := results st1 @ [ErrorEntry (sid s) msg]\<rparr>
                  in (Throws msg, st2)
             else executeSequential exec rest (i + 1) st1)"

text \<open>
  \<^verbatim>\<open>_executeParallel\<close>: every step is started in order and mapped to one entry;
  \<^verbatim>\<open>Promise.all\<close> keeps the order of the steps. The order in which the calls settle is
  not modelled: the outside world is threaded in starting order.
\<close>

fun executeParallel :: "'w executor \<Rightarrow> step list \<Rightarrow> 'w \<Rightarrow> step_result list \<times> 'w" where
  "executeParallel exec [] w = ([], w)"
| "executeParallel exec (s # rest) w =
     (case executeStep exec w s of
        (Threw msg, w') \<Rightarrow>
          (case executeParallel exec rest w' of (rs, w'') \<Rightarrow> (ErrorEntry (sid s) msg # rs, w''))
      | (Returned ok err, w') \<Rightarrow>
          (case executeParallel exec rest w' of (rs, w'') \<Rightarrow> (ResultEntry (sid s) ok # rs, w'')))"

text \<open>
  The argument of \<^verbatim>\<open>executeWorkflow\<close>. \<open>Falsy\<close> is \<^verbatim>\<open>null\<close>, \<^verbatim>\<open>undefined\<close> or any other
  falsy value; otherwise the argument has a \<^verbatim>\<open>steps\<close> property that is missing or falsy,
  truthy but not an array, or an array, and \<^verbatim>\<open>meta.strategy\<close> (\<open>None\<close> when
  \<^verbatim>\<open>plan.meta?.strategy\<close> is falsy).
\<close>

datatype js_steps = StepsMissing | StepsNotArray | StepsArray "step list"

datatype plan_arg = Falsy | PlanObj js_steps "string option"

datatype wf_status = Running | Completed | Failed

record workflow_record =
  wid :: "nat \<times> nat"
  wplan :: plan_arg
  startTime :: nat
  endTime :: "nat option"
  status :: wf_status
  currentStep :: "nat option"
  wresults :: "step_result list"
  werror :: "string option"

type_synonym registry = "nat \<times> nat \<rightharpoonup> workflow_record"

text \<open>The object \<^verbatim>\<open>executeWorkflow\<close> returns.\<close>

datatype wf_return =
    WfInvalid string
  | WfSuccess "nat \<times> nat" "step_result list"
  | WfFailure "nat \<times> nat" string

text \<open>
  \<^verbatim>\<open>executeWorkflow\<close>. The workflow id \<^verbatim>\<open>wf_${Date.now()}_${Math.floor(Math.random() * 1000)}\<close>
  is the pair of the clock reading \<open>now\<close> and the random number \<open>rnd\<close>; \<open>fin\<close> is
  the clock reading when the workflow ends. The function returns its result, the
  registry \<^verbatim>\<open>this.activeWorkflows\<close> and the outside world.
\<close>

definition executeWorkflow ::
  "'w executor \<Rightarrow> nat \<Rightarrow> nat \<Rightarrow> nat \<Rightarrow> registry \<Rightarrow> 'w \<Rightarrow> plan_arg \<Rightarrow> wf_return \<times> registry \<times> 'w" where
  "executeWorkflow exec now rnd fin reg w plan =
     (case plan of
        Falsy \<Rightarrow> (WfInvalid ''Invalid workflow plan'', reg, w)
      | PlanObj StepsMissing strat \<Rightarrow> (WfInvalid ''Invalid workflow plan'', reg, w)
      | PlanObj StepsNotArray strat \<Rightarrow> (WfInvalid ''Invalid workflow plan'', reg, w)
      | PlanObj (StepsArray steps) strat \<Rightarrow>
          let workflowId = (now, rnd);
              rec0 = \<lparr>wid = workflowId, wplan = plan, startTime = now, endTime = None,
                      status = Running, currentStep = None, wresults = [], werror = None\<rparr>;
              strategy = (case strat of None \<Rightarrow> ''sequential'' | Some t \<Rightarrow> t)
          in if strategy = ''sequential'' then
               (case executeSequential exec steps 0
                       \<lparr>results = [], linked = False, cursor = None, world = w\<rparr> of
                  (Returns u, st) \<Rightarrow>
                    (WfSuccess workflowId (results st),
                     reg(workflowId \<mapsto> rec0\<lparr>status := Completed, endTime := Some fin,
                                              currentStep := cursor st, wresults := results st\<rparr>),
                     world st)
                | (Throws msg, st) \<Rightarrow>
                    (WfFailure workflowId msg,
                     reg(workflowId \<mapsto> rec0\<lparr>status := Failed, endTime := Some fin,
                                              currentStep := cursor st,
                                              wresults := (if linked st then results st else []),
                                              werror := Some msg\<rparr>),
                     world st))
             else if strategy = ''parallel'' then
               (case executeParallel exec steps w of
                  (rs, w') \<Rightarrow>
                    (WfSuccess workflowId rs,
                     reg(workflowId \<mapsto> rec0\<lparr>status := Completed, endTime := Some fin,
                                              wresults := rs\<rparr>),
                     w'))
             else
               (WfFailure workflowId (''Unknown execution strategy: '' @ strategy),
                reg(workflowId \<mapsto> rec0\<lparr>status := Failed, endTime := Some fin,
                      werror := Some (''Unknown execution strategy: '' @ strategy)\<rparr>),
                w))"


text \<open>
  Concrete inputs for the workflow engine: an executor that reports failure for every
  step, one that throws, a critical step and an optional one.
\<close>

definition failingExec :: "unit executor" where
  "failingExec w s = (Returned False ''boom'', w)"

definition throwingExec :: "unit executor" where
  "throwingExec w s = (Threw ''boom'', w)"

definition criticalStep :: step where
  "criticalStep = \<lparr>sid = ''s1'', tool = ''discord.request'', action = Some ''member.ban'',
                     critical = True\<rparr>"

definition optionalStep :: step where
  "optionalStep = \<lparr>sid = ''s2'', tool = ''discord.request'', action = Some ''message.create'',
                     critical = False\<rparr>"


subsection \<open>DynamicHandler: \<^verbatim>\<open>src/core/dynamicHandler.js\<close>\<close>

text \<open>
  \<^verbatim>\<open>Object.keys(this.actionMappings)\<close>: the own keys of the handler table, in insertion
  order.
\<close>

definition validActions :: "string list" where
  "validActions =
     [''message.create'', ''message.edit'', ''message.delete'', ''message.react'',
      ''message.pin'', ''message.unpin'',
      ''channel.create'', ''channel.delete'', ''channel.purge'', ''channel.lock'',
      ''channel.unlock'',
      ''member.timeout'', ''member.kick'', ''member.ban'', ''member.unban'',
      ''member.setNickname'',
      ''role.add'', ''role.remove'']"

text \<open>
  \<^verbatim>\<open>this.actionMappings\<close> is an object literal, so \<^verbatim>\<open>this.actionMappings[key]\<close> also
  finds what \<^verbatim>\<open>Object.prototype\<close> provides under these names; all of them are truthy.
\<close>

definition objectPrototypeKeys :: "string list" where
  "objectPrototypeKeys =
     [''constructor'', ''__defineGetter__'', ''__defineSetter__'', ''hasOwnProperty'',
      ''__lookupGetter__'', ''__lookupSetter__'', ''isPrototypeOf'', ''propertyIsEnumerable'',
      ''toString'', ''valueOf'', ''__proto__'', ''toLocaleString'']"

datatype handler_ref = OwnHandler string | InheritedMember string

definition actionMapping :: "string \<Rightarrow> handler_ref option" where
  "actionMapping key =
     (if key \<in> set validActions then Some (OwnHandler key)
      else if key \<in> set objectPrototypeKeys then Some (InheritedMember key)
      else None)"

text \<open>\<^verbatim>\<open>this.actionAliases\<close>, entry by entry.\<close>

definition actionAliases :: "(string \<times> string) list" where
  "actionAliases =
     [(''member.edit'', ''member.setNickname''),
      (''member.update'', ''member.setNickname''),
      (''member.nickname'', ''member.setNickname''),
      (''member.nick'', ''member.setNickname''),
      (''member.rename'', ''member.setNickname''),
      (''member.changenick'', ''member.setNickname''),
      (''member.modifyNickname'', ''member.setNickname''),
      (''member.mute'', ''member.timeout''),
      (''member.silence'', ''member.timeout''),
      (''message.send'', ''message.create''),
      (''message.write'', ''message.create''),
      (''message.post'', ''message.create''),
      (''channel.clean'', ''channel.purge''),
      (''channel.clear'', ''channel.purge''),
      (''message.purge'', ''channel.purge''),
      (''message.clear'', ''channel.purge''),
      (''role.give'', ''role.add''),
      (''role.assign'', ''role.add''),
      (''role.revoke'', ''role.remove''),
      (''role.take'', ''role.remove'')]"

text \<open>
  \<^verbatim>\<open>_levenshteinDistance(a, b)\<close>. \<open>fill_row\<close> is the inner loop over \<open>j\<close> for one \<open>i\<close>:
  \<open>bc\<close> is \<^verbatim>\<open>b.charAt(i-1)\<close>, the string argument is what is left of \<open>a\<close> from
  \<^verbatim>\<open>a.charAt(j-1)\<close> on, \<open>prev\<close> is \<^verbatim>\<open>matrix[i-1]\<close> and \<open>row\<close> is \<^verbatim>\<open>matrix[i]\<close> as far
  as it is filled. \<open>fill_matrix\<close> is the outer loop; the matrix starts as its row 0,
  \<^verbatim>\<open>[0, 1, ..., a.length]\<close>, and row \<open>i\<close> starts as \<^verbatim>\<open>[i]\<close>.
\<close>

fun fill_row :: "char \<Rightarrow> string \<Rightarrow> nat \<Rightarrow> nat list \<Rightarrow> nat list \<Rightarrow> nat list" where
  "fill_row bc [] j prev row = row"
| "fill_row bc (ac # as) j prev row =
     fill_row bc as (j + 1) prev
       (row @ [if bc = ac then prev ! (j - 1)
               else min (prev ! (j - 1) + 1) (min (row ! (j - 1) + 1) (prev ! j + 1))])"

fun fill_matrix :: "string \<Rightarrow> string \<Rightarrow> nat \<Rightarrow> nat list list \<Rightarrow> nat list list" where
  "fill_matrix a [] i m = m"
| "fill_matrix a (bc # bs) i m =
     fill_matrix a bs (i + 1) (m @ [fill_row bc a 1 (m ! (i - 1)) [i]])"

definition levenshteinDistance :: "string \<Rightarrow> string \<Rightarrow> nat" where
  "levenshteinDistance a b =
     (if length a = 0 then length b
      else if length b = 0 then length a
      else fill_matrix a b 1 [[0 ..< length a + 1]] ! length b ! length a)"

text \<open>
  \<^verbatim>\<open>_calculateSimilarity\<close>. The score is a quotient of two integers; it is kept as
  an exact rational. On quotients of integers below \<open>2 ^ 25\<close> the division and the
  comparisons of IEEE doubles order the scores as the rationals do, and the literal
  \<^verbatim>\<open>0.6\<close> is the double nearest to \<open>6/10\<close>, so \<^verbatim>\<open>score >= 0.6\<close> is \<open>score \<ge> 6/10\<close>.
\<close>

definition calculateSimilarity :: "string \<Rightarrow> string \<Rightarrow> rat" where
  "calculateSimilarity str1 str2 =
     (let distance = levenshteinDistance str1 str2;
          maxLength = max (length str1) (length str2)
      in if maxLength = 0 then 1 else (of_nat maxLength - of_nat distance) / of_nat maxLength)"

text \<open>
  The two \<^verbatim>\<open>for (const action of ...)\<close> statements of \<^verbatim>\<open>_findSimilarAction\<close> run the
  same body, with the pair \<^verbatim>\<open>(bestMatch, bestScore)\<close> as state.
\<close>

fun best_loop :: "string \<Rightarrow> string list \<Rightarrow> string option \<times> rat \<Rightarrow> string option \<times> rat" where
  "best_loop n [] best = best"
| "best_loop n (candidate # rest) (bestMatch, bestScore) =
     (let score = calculateSimilarity n (toLowerCase candidate)
      in if score > bestScore then best_loop n rest (Some candidate, score)
         else best_loop n rest (bestMatch, bestScore))"

definition SIMILARITY_THRESHOLD :: rat where
  "SIMILARITY_THRESHOLD = 6 / 10"

text \<open>\<^verbatim>\<open>normalizedInvalid.split('.')[0]\<close> and the filter on the category.\<close>

definition categoryOf :: "string \<Rightarrow> string" where
  "categoryOf normalizedInvalid = takeWhile (\<lambda>c. c \<noteq> CHR ''.'') normalizedInvalid"

definition sameCategoryActions :: "string \<Rightarrow> string list" where
  "sameCategoryActions normalizedInvalid =
     filter (\<lambda>candidate. startsWith candidate (categoryOf normalizedInvalid @ ''.'')) validActions"

definition findSimilarAction :: "string \<Rightarrow> string option" where
  "findSimilarAction invalidAction =
     (let normalizedInvalid = toLowerCase invalidAction;
          sameCategory = sameCategoryActions normalizedInvalid
      in if CHR ''.'' \<in> set normalizedInvalid \<and> length sameCategory > 0
         then (case best_loop normalizedInvalid sameCategory (None, 0) of
                 (bestMatch, bestScore) \<Rightarrow>
                   if bestScore \<ge> SIMILARITY_THRESHOLD then bestMatch
                   else (case sameCategory of first # others \<Rightarrow> Some first | [] \<Rightarrow> None))
         else (case best_loop normalizedInvalid validActions (None, 0) of
                 (bestMatch, bestScore) \<Rightarrow>
                   if bestScore \<ge> SIMILARITY_THRESHOLD then bestMatch else None))"

text \<open>
  How \<^verbatim>\<open>executeAction\<close> finds the handler it runs. \<open>matchedPattern\<close> is the name of the
  first entry of \<^verbatim>\<open>this.commandPatterns\<close> whose regular expression matches
  \<^verbatim>\<open>message.content\<close> (\<open>None\<close> when the content is empty or no pattern matches);
  the second argument is \<^verbatim>\<open>params.action\<close>, \<open>None\<close> when \<^verbatim>\<open>params\<close> or the action is
  missing or falsy. An alias entry is looked up under the lower-cased action. (An
  inherited member found there is no action name: it selects no handler, and the search
  goes on as if nothing had been found.)
\<close>

datatype source = Exact | Alias | Fuzzy

datatype resolution =
    MissingAction
  | PatternHandled string
  | Dispatch handler_ref string source
  | DynamicExtension

definition resolveAction :: "string option \<Rightarrow> string option \<Rightarrow> resolution" where
  "resolveAction matchedPattern paramsAction =
     (case paramsAction of
        None \<Rightarrow> MissingAction
      | Some act \<Rightarrow>
          (case matchedPattern of
             Some name \<Rightarrow> PatternHandled name
           | None \<Rightarrow>
               (case actionMapping act of
                  Some handler \<Rightarrow> Dispatch handler act Exact
                | None \<Rightarrow>
                    (case (case map_of actionAliases (toLowerCase act) of
                             None \<Rightarrow> None
                           | Some correctAction \<Rightarrow>
                               map_option (\<lambda>h. (h, correctAction)) (actionMapping correctAction)) of
                       Some (handler, correctAction) \<Rightarrow> Dispatch handler correctAction Alias
                     | None \<Rightarrow>
                         (case findSimilarAction act of
                            None \<Rightarrow> DynamicExtension
                          | Some similarAction \<Rightarrow>
                              (case actionMapping similarAction of
                                 Some handler \<Rightarrow> Dispatch handler similarAction Fuzzy
                               | None \<Rightarrow> DynamicExtension))))))"


subsection \<open>LLMService: \<^verbatim>\<open>src/ai/llmService.js\<close>\<close>

subsubsection \<open>\<^verbatim>\<open>_fixJsonFormat\<close>\<close>

text \<open>
  The matchers of the regular expressions of \<^verbatim>\<open>_fixJsonFormat\<close>, in the order of their
  use: the code fences \<^verbatim>\<open>/```json\s*/\<close> and \<^verbatim>\<open>/```\s*/\<close>, the trailing comma
  \<^verbatim>\<open>/,(\s*[}\]])/\<close>, the unquoted key \<^verbatim>\<open>/(\w+):/\<close>, and the three expressions that put
  a comma and a line feed between two tokens separated by white space only. In each of
  them the greedy match is the only one: giving back a character of a run leaves the
  next pattern item facing a character of that run.
\<close>

definition fenceAt :: "string \<Rightarrow> string \<Rightarrow> (string \<times> string) option" where
  "fenceAt marker s =
     (if startsWith s marker then Some ([], dropWhile isSpace (drop (length marker) s)) else None)"

definition trailingCommaAt :: "string \<Rightarrow> (string \<times> string) option" where
  "trailingCommaAt s =
     (case s of
        [] \<Rightarrow> None
      | c # r \<Rightarrow>
          if c = CHR '','' then
            (case dropWhile isSpace r of
               [] \<Rightarrow> None
             | d # r' \<Rightarrow> if d = CHR ''}'' \<or> d = CHR '']'' then Some (takeWhile isSpace r @ [d], r') else None)
          else None)"

definition keyAt :: "string \<Rightarrow> (string \<times> string) option" where
  "keyAt s =
     (case dropWhile isWordChar s of
        [] \<Rightarrow> None
      | d # r \<Rightarrow>
          if takeWhile isWordChar s \<noteq> [] \<and> d = CHR '':''
          then Some ([dq] @ takeWhile isWordChar s @ [dq, CHR '':''], r) else None)"

definition gapAt :: "char \<Rightarrow> char \<Rightarrow> string \<Rightarrow> (string \<times> string) option" where
  "gapAt c1 c2 s =
     (case s of
        [] \<Rightarrow> None
      | c # r \<Rightarrow>
          if c = c1 then
            (case dropWhile isSpace r of
               [] \<Rightarrow> None
             | d # r' \<Rightarrow> if d = c2 then Some ([c1, CHR '','', nl, c2], r') else None)
          else None)"



text \<open>
  The slice from the first \<^verbatim>\<open>{\<close> to the last \<^verbatim>\<open>}\<close>, taken when both exist and the
  closing one comes later.
\<close>

definition sliceToBraces :: "string \<Rightarrow> string" where
  "sliceToBraces s =
     (case (indexOfChar (CHR ''{'') s, lastIndexOfChar (CHR ''}'') s) of
        (Some jsonStartIndex, Some jsonEndIndex) \<Rightarrow>
          if jsonEndIndex > jsonStartIndex
          then take (jsonEndIndex + 1 - jsonStartIndex) (drop jsonStartIndex s) else s
      | _ \<Rightarrow> s)"


text \<open>
  The loop over the lines: line \<open>i\<close> gets a comma when it and the next line both hold a
  colon and it does not end in a comma or an opening bracket, or when it ends in a
  closing brace or a quote and the next line starts with an opening brace or a quote.
  A changed line is replaced by its trimmed text and the comma.
\<close>

definition needsComma :: "string \<Rightarrow> string \<Rightarrow> bool" where
  "needsComma line nextLine =
     ((CHR '':'' \<in> set line \<and> CHR '':'' \<in> set nextLine
        \<and> \<not> endsWithChar line (CHR '','') \<and> \<not> endsWithChar line (CHR ''{'')
        \<and> \<not> endsWithChar line (CHR ''['')) \<or>
      ((endsWithChar line (CHR ''}'') \<or> endsWithChar line dq \<or> endsWithChar line sq)
        \<and> (startsWithChar nextLine (CHR ''{'') \<or> startsWithChar nextLine dq
             \<or> startsWithChar nextLine sq)
        \<and> \<not> endsWithChar line (CHR '','')))"

fun fixLines :: "string list \<Rightarrow> string list" where
  "fixLines (l # l' # ls) =
     (if needsComma (trim l) (trim l') then trim l @ '','' else l) # fixLines (l' # ls)"
| "fixLines ls = ls"


text \<open>Appending the closers that are missing.\<close>

definition balance :: "char \<Rightarrow> char \<Rightarrow> string \<Rightarrow> string" where
  "balance opening closing s = s @ replicate (countChar opening s - countChar closing s) closing"

text \<open>
  What the \<^verbatim>\<open>catch (parseError)\<close> block does: \<^verbatim>\<open>replace(/"steps"\s*:/, '"steps": [')\<close>
  on the first match, then \<^verbatim>\<open>replace(/}\s*$/, ']}')\<close>.
\<close>

fun openStepsArray :: "string \<Rightarrow> string" where
  "openStepsArray [] = []"
| "openStepsArray (c # cs) =
     (if startsWith (c # cs) ([dq] @ ''steps'' @ [dq])
         \<and> startsWithChar (dropWhile isSpace (drop 7 (c # cs))) (CHR '':'')
      then [dq] @ ''steps'' @ [dq] @ '': ['' @ tl (dropWhile isSpace (drop 7 (c # cs)))
      else c # openStepsArray cs)"

fun closeStepsArray :: "string \<Rightarrow> string" where
  "closeStepsArray [] = []"
| "closeStepsArray (c # cs) =
     (if c = CHR ''}'' \<and> dropWhile isSpace cs = [] then '']}'' else c # closeStepsArray cs)"

definition lastAttempt :: "string \<Rightarrow> string" where
  "lastAttempt jsonContent =
     (if includesStr jsonContent ([dq] @ ''steps'' @ [dq])
         \<and> \<not> includesStr jsonContent ([dq] @ ''steps'' @ [dq] @ '': ['')
         \<and> \<not> includesStr jsonContent ([dq] @ ''steps'' @ [dq] @ '':[]'')
      then (let opened = openStepsArray jsonContent
            in if \<not> includesStr opened ([dq] @ ''steps'' @ [dq] @ '': []'')
                  \<and> \<not> includesStr opened '']}''
               then closeStepsArray opened else opened)
      else jsonContent)"

definition repairJson :: "string \<Rightarrow> string" where
  "repairJson content =
     (let j1 = replaceAll (fenceAt ''```json'') content;
          j2 = replaceAll (fenceAt ''```'') j1;
          j3 = sliceToBraces j2;
          j4 = map (\<lambda>c. if c = sq then dq else c) j3;
          j5 = replaceAll trailingCommaAt j4;
          j6 = replaceAll keyAt j5;
          j7 = replaceAll (gapAt (CHR ''}'') (CHR ''{'')) j6;
          j8 = replaceAll (gapAt (CHR ''}'') dq) j7;
          j9 = replaceAll (gapAt dq (CHR ''{'')) j8;
          j10 = replaceAll (gapAt (CHR ''}'') (CHR ''{'')) j9;
          j11 = replaceAll (gapAt (CHR ''}'') (CHR ''{'')) j10;
          j12 = joinWith nl (fixLines (splitOn nl j11));
          j13 = balance (CHR ''{'') (CHR ''}'') j12;
          j14 = balance (CHR ''['') (CHR '']'') j13
      in j14)"

text \<open>
  The value at \<^verbatim>\<open>data.choices[0].message.content\<close>: a string, or a value of another
  type. \<^verbatim>\<open>_fixJsonFormat\<close> is written for a string; on anything else the first
  \<^verbatim>\<open>content.replace\<close> throws a \<^verbatim>\<open>TypeError\<close>, and the outer \<^verbatim>\<open>catch\<close> returns the argument.
  \<open>parses\<close> tells whether \<^verbatim>\<open>JSON.parse\<close> accepts a text.
\<close>

datatype js_content = TextContent string | OtherContent

definition fixJsonFormat :: "(string \<Rightarrow> bool) \<Rightarrow> js_content \<Rightarrow> js_content" where
  "fixJsonFormat parses content =
     (case content of
        OtherContent \<Rightarrow> OtherContent
      | TextContent text \<Rightarrow>
          (let jsonContent = repairJson text
           in if parses jsonContent then TextContent jsonContent
              else TextContent (lastAttempt jsonContent)))"



subsubsection \<open>\<^verbatim>\<open>JSON.parse\<close>\<close>

text \<open>
  A recogniser for the JSON grammar (ECMA-404), which is what \<^verbatim>\<open>JSON.parse\<close> accepts.
  Each function returns the text left after what it recognised. The first argument
  bounds the number of nested calls; \<open>jsonParses\<close> starts with more than the text has
  characters.
\<close>

definition isJsonWs :: "char \<Rightarrow> bool" where
  "isJsonWs c = ((of_char c :: nat) \<in> {9, 10, 13, 32})"

definition isHexDigit :: "char \<Rightarrow> bool" where
  "isHexDigit c =
     (let n = (of_char c :: nat)
      in (48 \<le> n \<and> n \<le> 57) \<or> (65 \<le> n \<and> n \<le> 70) \<or> (97 \<le> n \<and> n \<le> 102))"

fun jsonStringBody :: "string \<Rightarrow> string option" where
  "jsonStringBody [] = None"
| "jsonStringBody [c] = (if c = dq then Some [] else None)"
| "jsonStringBody (c # e # r) =
     (if c = dq then Some (e # r)
      else if c = CHR 0x5C then
        (if e \<in> set [dq, CHR 0x5C, CHR ''/'', CHR ''b'', CHR ''f'', CHR ''n'', CHR ''r'', CHR ''t'']
         then jsonStringBody r
         else if e = CHR ''u'' \<and> length r \<ge> 4 \<and> list_all isHexDigit (take 4 r)
         then jsonStringBody (drop 4 r)
         else None)
      else if (of_char c :: nat) < 32 then None
      else jsonStringBody (e # r))"

definition jsonDigits :: "string \<Rightarrow> string option" where
  "jsonDigits s = (if takeWhile isDigit s = [] then None else Some (dropWhile isDigit s))"

definition jsonNumber :: "string \<Rightarrow> string option" where
  "jsonNumber s =
     (let s1 = (if startsWithChar s (CHR ''-'') then tl s else s);
          afterInt = (if startsWithChar s1 (CHR ''0'') then Some (tl s1) else jsonDigits s1);
          afterFrac = (case afterInt of
                         None \<Rightarrow> None
                       | Some r \<Rightarrow> if startsWithChar r (CHR ''.'') then jsonDigits (tl r) else Some r)
      in case afterFrac of
           None \<Rightarrow> None
         | Some r \<Rightarrow>
             if startsWithChar r (CHR ''e'') \<or> startsWithChar r (CHR ''E'')
             then (let r1 = tl r;
                       r2 = (if startsWithChar r1 (CHR ''+'') \<or> startsWithChar r1 (CHR ''-'')
                             then tl r1 else r1)
                   in jsonDigits r2)
             else Some r)"

fun jsonValue :: "nat \<Rightarrow> string \<Rightarrow> string option"
  and jsonElements :: "nat \<Rightarrow> string \<Rightarrow> string option"
  and jsonMembers :: "nat \<Rightarrow> string \<Rightarrow> string option" where
  "jsonValue 0 s = None"
| "jsonValue (Suc n) s =
     (case dropWhile isJsonWs s of
        [] \<Rightarrow> None
      | c # r \<Rightarrow>
          if c = CHR ''{'' then
            (if startsWithChar (dropWhile isJsonWs r) (CHR ''}'') then Some (tl (dropWhile isJsonWs r))
             else jsonMembers n (dropWhile isJsonWs r))
          else if c = CHR ''['' then
            (if startsWithChar (dropWhile isJsonWs r) (CHR '']'') then Some (tl (dropWhile isJsonWs r))
             else jsonElements n r)
          else if c = dq then jsonStringBody r
          else if startsWith (c # r) ''true'' then Some (drop 4 (c # r))
          else if startsWith (c # r) ''false'' then Some (drop 5 (c # r))
          else if startsWith (c # r) ''null'' then Some (drop 4 (c # r))
          else jsonNumber (c # r))"
| "jsonElements 0 s = None"
| "jsonElements (Suc n) s =
     (case jsonValue n s of
        None \<Rightarrow> None
      | Some r \<Rightarrow>
          (case dropWhile isJsonWs r of
             [] \<Rightarrow> None
           | c # r' \<Rightarrow>
               if c = CHR '']'' then Some r'
               else if c = CHR '','' then jsonElements n r'
               else None))"
| "jsonMembers 0 s = None"
| "jsonMembers (Suc n) s =
     (case s of
        [] \<Rightarrow> None
      | q # r \<Rightarrow>
          if q = dq then
            (case jsonStringBody r of
               None \<Rightarrow> None
             | Some r1 \<Rightarrow>
                 (case dropWhile isJsonWs r1 of
                    [] \<Rightarrow> None
                  | c # r2 \<Rightarrow>
                      if c = CHR '':'' then
                        (case jsonValue n r2 of
                           None \<Rightarrow> None
                         | Some r3 \<Rightarrow>
                             (case dropWhile isJsonWs r3 of
                                [] \<Rightarrow> None
                              | d # r4 \<Rightarrow>
                                  if d = CHR ''}'' then Some r4
                                  else if d = CHR '','' then jsonMembers n (dropWhile isJsonWs r4)
                                  else None))
                      else None))
          else None)"

definition jsonParses :: "string \<Rightarrow> bool" where
  "jsonParses s =
     (case jsonValue (2 * length s + 2) s of
        None \<Rightarrow> False
      | Some r \<Rightarrow> dropWhile isJsonWs r = [])"



subsubsection \<open>The fallback synthesizer\<close>

text \<open>
  The matchers of \<^verbatim>\<open>_processWriteCommand\<close>: the quoted text \<^verbatim>\<open>/["']([^"']+)["']/\<close>, the
  repeat count \<^verbatim>\<open>/(\d+)\s*(?:times|kez|defa)/i\<close> and the mention \<^verbatim>\<open>/<@!?(\d+)>/\<close>.
\<close>

definition isQuote :: "char \<Rightarrow> bool" where
  "isQuote c = (c = dq \<or> c = sq)"

definition quotedAt :: "string \<Rightarrow> string option" where
  "quotedAt s =
     (case s of
        [] \<Rightarrow> None
      | q # r \<Rightarrow>
          if isQuote q \<and> takeWhile (\<lambda>c. \<not> isQuote c) r \<noteq> [] \<and> dropWhile (\<lambda>c. \<not> isQuote c) r \<noteq> []
          then Some (takeWhile (\<lambda>c. \<not> isQuote c) r) else None)"

definition repeatCountAt :: "string \<Rightarrow> string option" where
  "repeatCountAt s =
     (let digits = takeWhile isDigit s;
          r = dropWhile isSpace (dropWhile isDigit s)
      in if digits \<noteq> [] \<and> (startsWithIgnoreCase r ''times'' \<or> startsWithIgnoreCase r ''kez''
                              \<or> startsWithIgnoreCase r ''defa'')
         then Some digits else None)"

definition mentionAt :: "string \<Rightarrow> string option" where
  "mentionAt s =
     (if startsWith s ''<@'' then
        (let r = (if startsWithChar (drop 2 s) (CHR ''!'') then drop 3 s else drop 2 s)
         in if takeWhile isDigit r \<noteq> [] \<and> startsWithChar (dropWhile isDigit r) (CHR ''>'')
            then Some (takeWhile isDigit r) else None)
      else None)"

text \<open>
  The plan object that \<^verbatim>\<open>_processWriteCommand\<close> hands to \<^verbatim>\<open>JSON.stringify\<close>. The third
  keyword of \<open>shouldNumber\<close>, the Turkish word for number, ends in a dotless i; that
  letter is the code unit 305 and does not occur in a text of code units below 256, so
  the test for it is left out.
\<close>

record plan_step =
  ps_tool :: string
  ps_action :: string
  ps_content :: string
  ps_id :: string

record plan =
  plan_steps :: "plan_step list"
  plan_strategy :: string

definition processWriteCommand :: "string \<Rightarrow> plan" where
  "processWriteCommand userPrompt =
     (let content = (case firstMatch quotedAt userPrompt of Some c \<Rightarrow> c | None \<Rightarrow> ''Merhaba!'');
          repeat = (case firstMatch repeatCountAt userPrompt of
                      Some digits \<Rightarrow> min (parseInt digits) 5 | None \<Rightarrow> 1);
          mention = (case firstMatch mentionAt userPrompt of
                       Some uid \<Rightarrow> ''<@'' @ uid @ ''> '' | None \<Rightarrow> []);
          shouldNumber = (includesStr (toLowerCase userPrompt) ''number''
                          \<or> includesStr (toLowerCase userPrompt) ''numara'');
          isIncrementing = includesStr (toLowerCase userPrompt) ''increment''
      in \<lparr>plan_steps =
            map (\<lambda>i. \<lparr>ps_tool = ''discord.request'',
                      ps_action = ''message.create'',
                      ps_content =
                        (if shouldNumber \<or> isIncrementing
                         then (if isIncrementing then mention @ content @ '' '' @ showNat (i + 1)
                               else showNat (i + 1) @ ''. '' @ mention @ content)
                         else mention @ content),
                      ps_id = ''s'' @ showNat (i + 1)\<rparr>)
                [0 ..< repeat],
          plan_strategy = ''sequential''\<rparr>)"

text \<open>
  \<^verbatim>\<open>_generateFallbackResponse\<close> picks a processor by the first keyword group found in
  the lower-cased prompt. Only \<^verbatim>\<open>_processWriteCommand\<close> is embedded; the other
  processors are recorded by name with the prompt they receive, and \<open>DefaultNotice\<close> is
  the one-step plan that sends the fixed notice about the unavailable API.
\<close>

datatype processor =
    ProcessTimeout | ProcessPurge | ProcessBan | ProcessKick | ProcessRole | ProcessChannel
  | ProcessNickname | ProcessRepeat

datatype fallback_response = WritePlan plan | Delegated processor string | DefaultNotice

definition generateFallbackResponse :: "string \<Rightarrow> fallback_response" where
  "generateFallbackResponse userPrompt =
     (let lowerPrompt = toLowerCase userPrompt;
          has = includesStr lowerPrompt
      in if has ''write'' \<or> has ''send'' \<or> has ''yaz'' then WritePlan (processWriteCommand userPrompt)
         else if has ''timeout'' \<or> has ''mute'' \<or> has ''sustur'' then Delegated ProcessTimeout userPrompt
         else if has ''purge'' \<or> has ''clear'' \<or> has ''delete'' \<or> has ''sil'' \<or> has ''temizle''
           then Delegated ProcessPurge userPrompt
         else if has ''ban'' \<or> has ''yasak'' then Delegated ProcessBan userPrompt
         else if has ''kick'' \<or> has ''at'' then Delegated ProcessKick userPrompt
         else if has ''role'' \<or> has ''rol'' then Delegated ProcessRole userPrompt
         else if has ''channel'' \<or> has ''kanal'' then Delegated ProcessChannel userPrompt
         else if has ''nickname'' \<or> has ''nick'' \<or> has ''isim'' then Delegated ProcessNickname userPrompt
         else if has ''repeat'' \<or> has ''tekrarla'' then Delegated ProcessRepeat userPrompt
         else DefaultNotice)"



subsubsection \<open>\<^verbatim>\<open>generateResponse\<close>\<close>

text \<open>
  The fields of the service that \<^verbatim>\<open>generateResponse\<close> reads; \<^verbatim>\<open>retryDelay\<close> is also
  written. The delay is a natural number here; the double of the source holds the
  same number as long as it has been doubled at most 1014 times.

  \<open>backend k\<close> is what the \<open>k\<close>-th \<^verbatim>\<open>fetch\<close> of one invocation leads to: a failure
  (the request fails, the status is not a success, the body is not JSON) or the
  content of the first choice; an empty text, like a missing content, makes the
  attempt fail.
\<close>

record llmService =
  retryAttempts :: nat
  retryDelay :: nat
  useFallbackOnError :: bool
  fixJsonInResponse :: bool

definition newLLMService :: llmService where
  "newLLMService = \<lparr>retryAttempts = 3, retryDelay = 1000, useFallbackOnError = True,
                      fixJsonInResponse = True\<rparr>"

datatype backend_reply = ApiFailure string | ApiContent js_content

definition succeeds :: "backend_reply \<Rightarrow> bool" where
  "succeeds r = (case r of ApiFailure e \<Rightarrow> False | ApiContent c \<Rightarrow> c \<noteq> TextContent [])"

datatype response = FromBackend js_content | FromFallback fallback_response

record generation =
  outcome :: "response completion"
  calls :: nat
  delays :: "nat list"
  service :: llmService

text \<open>
  The statements between the loop and the fallback. The fourth of them reads
  \<^verbatim>\<open>response.status\<close>, but \<^verbatim>\<open>response\<close> is a \<^verbatim>\<open>const\<close> of the \<^verbatim>\<open>try\<close> block inside the
  loop and is not in scope here (nor is \<^verbatim>\<open>content\<close>, read two statements later), so the
  evaluation throws a \<^verbatim>\<open>ReferenceError\<close>.
\<close>

definition debugOutput :: "unit completion" where
  "debugOutput = Throws ''response is not defined''"

definition afterAllAttempts :: "llmService \<Rightarrow> string \<Rightarrow> string option \<Rightarrow> response completion" where
  "afterAllAttempts svc userPrompt lastError =
     (case debugOutput of
        Throws e \<Rightarrow> Throws e
      | Returns u \<Rightarrow>
          if useFallbackOnError svc then Returns (FromFallback (generateFallbackResponse userPrompt))
          else (case lastError of
                  None \<Rightarrow> Throws ''Cannot read properties of null (reading 'message')''
                | Some e \<Rightarrow>
                    Throws (''Failed to generate LLM response after '' @ showNat (retryAttempts svc)
                            @ '' attempts: '' @ e)))"

text \<open>
  The \<^verbatim>\<open>while (attemptCount < this.retryAttempts)\<close> loop and what follows it. \<open>waited\<close>
  lists the delays passed to \<^verbatim>\<open>setTimeout\<close> so far; the number of \<^verbatim>\<open>fetch\<close> calls is
  \<open>attemptCount\<close>, plus one on success.
\<close>

function attemptLoop ::
  "(string \<Rightarrow> bool) \<Rightarrow> (nat \<Rightarrow> backend_reply) \<Rightarrow> string \<Rightarrow> llmService \<Rightarrow> nat \<Rightarrow> string option
     \<Rightarrow> nat list \<Rightarrow> generation" where
  "attemptLoop parses backend userPrompt svc attemptCount lastError waited =
     (if attemptCount < retryAttempts svc then
        (if succeeds (backend attemptCount) then
           \<lparr>outcome = Returns (FromBackend
                (case backend attemptCount of
                   ApiContent content \<Rightarrow>
                     if fixJsonInResponse svc then fixJsonFormat parses content else content
                 | ApiFailure e \<Rightarrow> OtherContent)),
            calls = attemptCount + 1, delays = waited, service = svc\<rparr>
         else
           (let err = (case backend attemptCount of
                         ApiFailure e \<Rightarrow> e
                       | ApiContent content \<Rightarrow> ''Invalid or empty response from API'')
            in if attemptCount + 1 < retryAttempts svc
               then attemptLoop parses backend userPrompt (svc\<lparr>retryDelay := retryDelay svc * 2\<rparr>)
                      (attemptCount + 1) (Some err) (waited @ [retryDelay svc])
               else attemptLoop parses backend userPrompt svc (attemptCount + 1) (Some err) waited))
      else \<lparr>outcome = afterAllAttempts svc userPrompt lastError,
             calls = attemptCount, delays = waited, service = svc\<rparr>)"
  by pat_completeness auto
termination
  by (relation "measure (\<lambda>(parses, backend, userPrompt, svc, attemptCount, lastError, waited).
                           retryAttempts svc - attemptCount)") auto

declare attemptLoop.simps [simp del]

definition generateResponse ::
  "(string \<Rightarrow> bool) \<Rightarrow> (nat \<Rightarrow> backend_reply) \<Rightarrow> llmService \<Rightarrow> string \<Rightarrow> string \<Rightarrow> generation" where
  "generateResponse parses backend svc systemPrompt userPrompt =
     attemptLoop parses backend userPrompt svc 0 None []"



text \<open>
  Concrete backends: one that refuses every connection, and one whose second call
  answers with a text that needs repair.
\<close>

definition deadBackend :: "nat \<Rightarrow> backend_reply" where
  "deadBackend k = ApiFailure ''connect ECONNREFUSED 127.0.0.1:11434''"


text \<open>A reply of the model that is no JSON at all: the text \<^verbatim>\<open>I can't do that\<close>.\<close>

definition refusal :: string where
  "refusal = ''I can'' @ [sq] @ ''t do that''"


subsection \<open>ApprovalGate: \<^verbatim>\<open>requestPlanApproval\<close> in \<^verbatim>\<open>src/core/bot.js\<close>\<close>

text \<open>
  A reaction added to the approval message: the time of its arrival in milliseconds
  after the collector was started, its emoji and the id of the user who added it.
\<close>

datatype emoji = CheckMark | CrossMark | OtherEmoji string

record reaction =
  r_time :: nat
  r_emoji :: emoji
  r_user :: string

text \<open>The \<^verbatim>\<open>filter\<close> closure; \<open>authorId\<close> is \<^verbatim>\<open>message.author.id\<close>.\<close>

definition approvalFilter :: "string \<Rightarrow> reaction \<Rightarrow> bool" where
  "approvalFilter authorId r =
     ((r_emoji r = CheckMark \<or> r_emoji r = CrossMark) \<and> r_user r = authorId)"

text \<open>
  \<^verbatim>\<open>approvalMessage.awaitReactions({filter, max: 1, time, errors: ['time']})\<close> of the
  discord.js library, over the reactions in their order of arrival: the promise is
  fulfilled with the first reaction that passes the filter and arrives before the
  time is up, and it is rejected (\<open>None\<close>) when the time runs out first.
\<close>

fun awaitReactions :: "(reaction \<Rightarrow> bool) \<Rightarrow> nat \<Rightarrow> reaction list \<Rightarrow> reaction option" where
  "awaitReactions accepts time [] = None"
| "awaitReactions accepts time (r # rs) =
     (if r_time r < time \<and> accepts r then Some r else awaitReactions accepts time rs)"

definition approvalWindow :: nat where
  "approvalWindow = 30000"

text \<open>
  The callback \<^verbatim>\<open>onApproved\<close> runs \<^verbatim>\<open>executeApprovedPlan\<close>, which hands every step whose
  tool is \<^verbatim>\<open>discord.request\<close> to \<^verbatim>\<open>dynamicHandler.executeAction\<close>, in order, and catches
  what they throw.
\<close>

definition executeApprovedPlan :: "plan_step list \<Rightarrow> plan_step list" where
  "executeApprovedPlan steps = filter (\<lambda>st. ps_tool st = ''discord.request'') steps"

text \<open>
  \<^verbatim>\<open>requestPlanApproval\<close>: the state the session ends in, told by the reply that is sent
  (\<^verbatim>\<open>planApproved\<close>, \<^verbatim>\<open>planRejected\<close>, \<^verbatim>\<open>planExpired\<close>), and the steps that reached the
  Action Executor. Sending and reacting on the platform is taken to succeed.
\<close>

datatype approval_state = Approved | Rejected | Expired

definition requestPlanApproval ::
  "string \<Rightarrow> plan_step list \<Rightarrow> reaction list \<Rightarrow> approval_state \<times> plan_step list" where
  "requestPlanApproval authorId steps reactions =
     (case awaitReactions (approvalFilter authorId) approvalWindow reactions of
        None \<Rightarrow> (Expired, [])
      | Some r \<Rightarrow>
          if r_emoji r = CheckMark then (Approved, executeApprovedPlan steps)
          else (Rejected, []))"

text \<open>A plan that bans a member, and reactions from two users.\<close>

definition banPlan :: "plan_step list" where
  "banPlan =
     [\<lparr>ps_tool = ''discord.request'', ps_action = ''member.ban'', ps_content = [], ps_id = ''s1''\<rparr>,
      \<lparr>ps_tool = ''discord.request'', ps_action = ''message.create'', ps_content = ''banned'',
        ps_id = ''s2''\<rparr>]"

definition bystanderReactions :: "reaction list" where
  "bystanderReactions =
     [\<lparr>r_time = 1000, r_emoji = CheckMark, r_user = ''mallory''\<rparr>,
      \<lparr>r_time = 2000, r_emoji = OtherEmoji ''thumbsup'', r_user = ''alice''\<rparr>,
      \<lparr>r_time = 31000, r_emoji = CheckMark, r_user = ''alice''\<rparr>]"


subsection \<open>The fuzzy rule as the specification words it\<close>

text \<open>
  The Levenshtein distance of two texts is the least number of single-character
  insertions, deletions and substitutions that turn the first into the second.
  \<open>edit1\<close> is one such edit, at any position.
\<close>

inductive edit1 :: "'a list \<Rightarrow> 'a list \<Rightarrow> bool" where
  insertion: "edit1 (us @ vs) (us @ c # vs)"
| deletion: "edit1 (us @ c # vs) (us @ vs)"
| substitution: "edit1 (us @ c # vs) (us @ d # vs)"

definition editDistance :: "'a list \<Rightarrow> 'a list \<Rightarrow> nat" where
  "editDistance xs ys = (LEAST n. (edit1 ^^ n) xs ys)"

text \<open>
  The normalized similarity \<open>(maxLen - editDistance) / maxLen\<close>, and the candidates of
  the fuzzy rule for a normalized identifier: the canonical identifiers that share its
  category prefix when it has a category and some identifier shares it, otherwise the
  full canonical set.
\<close>

definition normalizedSimilarity :: "string \<Rightarrow> string \<Rightarrow> rat" where
  "normalizedSimilarity a b =
     (of_nat (max (length a) (length b)) - of_nat (editDistance a b))
       / of_nat (max (length a) (length b))"

definition fuzzyCandidates :: "string \<Rightarrow> string list" where
  "fuzzyCandidates n =
     (if CHR ''.'' \<in> set n \<and> sameCategoryActions n \<noteq> [] then sameCategoryActions n
      else validActions)"


text \<open>
  Auxiliary notions for the proofs: the recursion of Wagner and Fischer, the distance
  between two prefixes, and the rows of the matrix that \<^verbatim>\<open>_levenshteinDistance\<close> fills.
\<close>

fun lev :: "'a list \<Rightarrow> 'a list \<Rightarrow> nat" where
  "lev [] ys = length ys"
| "lev (x # xs) [] = Suc (length xs)"
| "lev (x # xs) (y # ys) =
     min (lev xs ys + (if x = y then 0 else 1)) (min (lev (x # xs) ys + 1) (lev xs (y # ys) + 1))"

definition prefixDistance :: "string \<Rightarrow> string \<Rightarrow> nat \<Rightarrow> nat \<Rightarrow> nat" where
  "prefixDistance a b i j = lev (take i b) (take j a)"

definition matrixRow :: "string \<Rightarrow> string \<Rightarrow> nat \<Rightarrow> nat list" where
  "matrixRow a b i = map (prefixDistance a b i) [0 ..< Suc (length a)]"


text \<open>Identifiers on which the resolver is run below.\<close>

definition nickchange :: string where
  "nickchange = ''member.nickchange''"


section \<open>Part II: properties\<close>

subsection \<open>EventBus\<close>

lemma emit_loop_invoked_prefix:
  "\<exists>new. snd (emit_loop ls d h invoked) = invoked @ new"
proof (induction ls arbitrary: h invoked)
  case Nil
  show ?case by simp
next
  case (Cons l ls)
  show ?case
  proof (cases "callback l d")
    case (Throws e)
    from Cons.IH [of h "invoked @ [Throws e]"] Throws show ?thesis by auto
  next
    case (Returns r)
    from Cons.IH [of True "invoked @ [Returns r]"] Cons.IH [of h "invoked @ [Returns r]"] Returns
    show ?thesis by auto
  qed
qed

lemma emit_loop_handled:
  "fst (emit_loop ls d h invoked) \<longleftrightarrow>
     h \<or> Returns (JBool True) \<in> set (drop (length invoked) (snd (emit_loop ls d h invoked)))"
proof (induction ls arbitrary: h invoked)
  case Nil
  show ?case by simp
next
  case (Cons l ls)
  show ?case
  proof (cases "callback l d")
    case (Throws e)
    obtain new where new: "snd (emit_loop ls d h (invoked @ [Throws e])) = (invoked @ [Throws e]) @ new"
      using emit_loop_invoked_prefix [of ls d h "invoked @ [Throws e]"] by auto
    from Cons.IH [of h "invoked @ [Throws e]"] Throws new show ?thesis by auto
  next
    case (Returns r)
    show ?thesis
    proof (cases "r = JBool True")
      case True
      obtain new where new: "snd (emit_loop ls d True (invoked @ [Returns r])) = (invoked @ [Returns r]) @ new"
        using emit_loop_invoked_prefix [of ls d True "invoked @ [Returns r]"] by auto
      from Cons.IH [of True "invoked @ [Returns r]"] Returns True new show ?thesis by auto
    next
      case False
      obtain new where new: "snd (emit_loop ls d h (invoked @ [Returns r])) = (invoked @ [Returns r]) @ new"
        using emit_loop_invoked_prefix [of ls d h "invoked @ [Returns r]"] by auto
      from Cons.IH [of h "invoked @ [Returns r]"] Returns False new show ?thesis by auto
    qed
  qed
qed

lemma emit_loop_subscribed:
  "fst (emit_loop ls d h invoked) \<longleftrightarrow> h \<or> (\<exists>l\<in>set ls. callback l d = Returns (JBool True))"
  by (induction ls arbitrary: h invoked) (auto split: completion.splits)

text \<open>
  C9. \<^verbatim>\<open>emit\<close> returns \<^verbatim>\<open>true\<close> exactly when one of the callbacks it invoked settled
  with the boolean \<^verbatim>\<open>true\<close>, which is the case exactly when some subscriber of the event
  returns the boolean \<^verbatim>\<open>true\<close> on the payload; no other value, truthy or not, counts.
  On an event without an entry, or with an empty listener array, it returns \<^verbatim>\<open>false\<close>
  and invokes nothing.
\<close>

theorem emit_handled_iff_true_returned:
  "(fst (emit bus event d) \<longleftrightarrow> Returns (JBool True) \<in> set (snd (emit bus event d)))
   \<and> (fst (emit bus event d) \<longleftrightarrow>
        (\<exists>ls. listeners bus event = Some ls \<and> (\<exists>l\<in>set ls. callback l d = Returns (JBool True))))
   \<and> (listeners bus event = None \<or> listeners bus event = Some [] \<longrightarrow>
        emit bus event d = (False, []))"
proof (cases "listeners bus event")
  case None
  then show ?thesis by (simp add: emit_def)
next
  case (Some ls)
  have a: "fst (emit bus event d) \<longleftrightarrow> Returns (JBool True) \<in> set (snd (emit bus event d))"
    using Some emit_loop_handled [of ls d False "[]"] by (simp add: emit_def)
  have b: "fst (emit bus event d) \<longleftrightarrow> (\<exists>l\<in>set ls. callback l d = Returns (JBool True))"
    using Some emit_loop_subscribed [of ls d False "[]"] by (cases ls) (simp_all add: emit_def)
  have c: "ls = [] \<longrightarrow> emit bus event d = (False, [])"
    using Some by (simp add: emit_def)
  from a b c Some show ?thesis by simp
qed

theorem emit_handled_iff_true_returned_witness:
  "fst (emit demoBus ''interaction'' 0)
   \<and> Returns (JBool True) \<in> set (snd (emit demoBus ''interaction'' 0))
   \<and> snd (emit demoBus ''interaction'' 1) = [Throws ''boom'', Returns (JNum 1), Returns (JBool False)]
   \<and> \<not> fst (emit demoBus ''interaction'' 1)
   \<and> snd (emit demoBus ''other'' 0) = [Returns (JStr ''yes'')]
   \<and> \<not> fst (emit demoBus ''other'' 0)
   \<and> listeners demoBus ''absent'' = None
   \<and> emit demoBus ''absent'' 0 = (False, [])"
proof -
  have t: "snd (emit demoBus ''interaction'' 0) = [Throws ''boom'', Returns (JNum 1), Returns (JBool True)]"
    by code_simp
  have f: "snd (emit demoBus ''interaction'' 1) = [Throws ''boom'', Returns (JNum 1), Returns (JBool False)]"
    by code_simp
  have o: "snd (emit demoBus ''other'' 0) = [Returns (JStr ''yes'')]"
    by code_simp
  have n: "listeners demoBus ''absent'' = None"
    by code_simp
  from t f o n
    emit_handled_iff_true_returned [of demoBus "''interaction''" 0]
    emit_handled_iff_true_returned [of demoBus "''interaction''" 1]
    emit_handled_iff_true_returned [of demoBus "''other''" 0]
    emit_handled_iff_true_returned [of demoBus "''absent''" 0]
  show ?thesis by simp
qed

subsection \<open>WorkflowEngine\<close>


text \<open>
  C10. When the argument is falsy, or its \<^verbatim>\<open>steps\<close> property is missing or is not an
  array, \<^verbatim>\<open>executeWorkflow\<close> returns the failure \<^verbatim>\<open>Invalid workflow plan\<close>, and the
  registry and the outside world are what they were: no record is created or changed
  and no step is executed.
\<close>

theorem executeWorkflow_invalid_plan:
  assumes "plan = Falsy \<or> plan = PlanObj StepsMissing strat \<or> plan = PlanObj StepsNotArray strat"
  shows "executeWorkflow exec now rnd fin reg w plan = (WfInvalid ''Invalid workflow plan'', reg, w)"
  using assms by (auto simp: executeWorkflow_def)

theorem executeWorkflow_invalid_plan_witness:
  "executeWorkflow failingExec 5 7 9 Map.empty () Falsy
     = (WfInvalid ''Invalid workflow plan'', Map.empty, ())
   \<and> executeWorkflow failingExec 5 7 9 Map.empty () (PlanObj StepsNotArray (Some ''parallel''))
     = (WfInvalid ''Invalid workflow plan'', Map.empty, ())"
  using executeWorkflow_invalid_plan [of Falsy None failingExec 5 7 9 Map.empty "()"]
        executeWorkflow_invalid_plan [of "PlanObj StepsNotArray (Some ''parallel'')" "Some ''parallel''"
                                         failingExec 5 7 9 Map.empty "()"]
  by simp

text \<open>
  Sequential runs. A run over \<open>pre\<close> that does not halt leaves one entry per step; the
  loop over \<open>pre @ rest\<close> then continues with \<open>rest\<close>.
\<close>

lemma executeSequential_no_halt_length:
  "executeSequential exec pre i st = (Returns u, st')
     \<Longrightarrow> length (results st') = length (results st) + length pre"
proof (induction pre arbitrary: i st)
  case Nil
  then show ?case by simp
next
  case (Cons s pre)
  show ?case
  proof (cases "executeStep exec (world st) s")
    case (Pair out w')
    show ?thesis
    proof (cases out)
      case (Threw msg)
      with Cons.prems Pair have nc: "\<not> critical s" by (auto simp: Let_def split: if_splits)
      with Cons.prems Pair Threw
      have "executeSequential exec pre (i + 1)
              (st\<lparr>results := results st @ [ErrorEntry (sid s) msg], world := w'\<rparr>) = (Returns u, st')"
        by (simp add: Let_def)
      from Cons.IH [OF this] show ?thesis by simp
    next
      case (Returned ok err)
      with Cons.prems Pair have nh: "\<not> (\<not> ok \<and> critical s)" by (auto simp: Let_def split: if_splits)
      with Cons.prems Pair Returned
      have "executeSequential exec pre (i + 1)
              (st\<lparr>results := results st @ [ResultEntry (sid s) ok], linked := True,
                  cursor := Some (i + 1), world := w'\<rparr>) = (Returns u, st')"
        by (auto simp: Let_def)
      from Cons.IH [OF this] show ?thesis by simp
    qed
  qed
qed

lemma executeSequential_append:
  "executeSequential exec pre i st = (Returns u, st')
     \<Longrightarrow> executeSequential exec (pre @ rest) i st = executeSequential exec rest (i + length pre) st'"
proof (induction pre arbitrary: i st)
  case Nil
  then show ?case by simp
next
  case (Cons s pre)
  show ?case
  proof (cases "executeStep exec (world st) s")
    case (Pair out w')
    show ?thesis
    proof (cases out)
      case (Threw msg)
      with Cons.prems Pair have nc: "\<not> critical s" by (auto simp: Let_def split: if_splits)
      with Cons.prems Pair Threw
      have "executeSequential exec pre (i + 1)
              (st\<lparr>results := results st @ [ErrorEntry (sid s) msg], world := w'\<rparr>) = (Returns u, st')"
        by (simp add: Let_def)
      from Cons.IH [OF this] Pair Threw nc show ?thesis by (simp add: Let_def)
    next
      case (Returned ok err)
      with Cons.prems Pair have nh: "\<not> (\<not> ok \<and> critical s)" by (auto simp: Let_def split: if_splits)
      with Cons.prems Pair Returned
      have "executeSequential exec pre (i + 1)
              (st\<lparr>results := results st @ [ResultEntry (sid s) ok], linked := True,
                  cursor := Some (i + 1), world := w'\<rparr>) = (Returns u, st')"
        by (auto simp: Let_def)
      from Cons.IH [OF this] Pair Returned nh show ?thesis by (auto simp: Let_def)
    qed
  qed
qed

text \<open>
  The critical step at position \<open>k = length pre + 1\<close> halts the run. When the executor
  reported failure for it, the array holds \<open>k + 1\<close> entries, the last two for that
  step; when the executor threw, it holds \<open>k\<close> entries.
\<close>

lemma executeSequential_critical_reported:
  assumes "executeSequential exec pre 0 st = (Returns u, st')"
    and "executeStep exec (world st') s = (Returned False err, w')"
    and "critical s"
    and "results st = []"
  shows "\<exists>msg st''. executeSequential exec (pre @ s # post) 0 st = (Throws msg, st'')
            \<and> length (results st'') = length pre + 2 \<and> linked st''"
  using executeSequential_append [OF assms(1), of "s # post"]
        executeSequential_no_halt_length [OF assms(1)] assms(2-4)
  by (simp add: Let_def)

lemma executeSequential_critical_threw:
  assumes "executeSequential exec pre 0 st = (Returns u, st')"
    and "executeStep exec (world st') s = (Threw e, w')"
    and "critical s"
    and "results st = []"
  shows "\<exists>st''. executeSequential exec (pre @ s # post) 0 st = (Throws e, st'')
            \<and> length (results st'') = length pre + 1 \<and> linked st'' = linked st'"
  using executeSequential_append [OF assms(1), of "s # post"]
        executeSequential_no_halt_length [OF assms(1)] assms(2-4)
  by (simp add: Let_def)

lemma executeParallel_length:
  "length (fst (executeParallel exec steps w)) = length steps"
proof (induction steps arbitrary: w)
  case Nil
  show ?case by simp
next
  case (Cons s steps)
  obtain out w' where e: "executeStep exec w s = (out, w')" by (cases "executeStep exec w s")
  obtain rs w'' where r: "executeParallel exec steps w' = (rs, w'')"
    by (cases "executeParallel exec steps w'")
  from Cons.IH [of w'] r have "length rs = length steps" by simp
  with e r show ?case by (cases out) simp_all
qed

lemma executeWorkflow_parallel_completes:
  "\<exists>rs reg' w'. executeWorkflow exec now rnd fin reg w (PlanObj (StepsArray steps) (Some ''parallel''))
       = (WfSuccess (now, rnd) rs, reg', w')
     \<and> length rs = length steps
     \<and> map_option status (reg' (now, rnd)) = Some Completed
     \<and> map_option wresults (reg' (now, rnd)) = Some rs"
  using executeParallel_length [of exec steps w]
  by (cases "executeParallel exec steps w") (simp add: executeWorkflow_def Let_def)

text \<open>
  C2 (evaluation at the failing input). The executor reports
  \<^verbatim>\<open>{success: false, error: 'boom'}\<close> for every step. In the first plan the only step is
  critical, at position \<open>k = 1\<close>; in the second plan an optional step precedes it, so
  \<open>k = 2\<close>. Both workflows fail, and their records hold \<open>k + 1\<close> entries, two of them
  for the critical step: the entry pushed in the \<^verbatim>\<open>try\<close> block and the entry pushed by
  the \<^verbatim>\<open>catch\<close> that receives the critical-failure error thrown inside that \<^verbatim>\<open>try\<close>.
  With an executor that throws, the first plan leaves one entry in the local array,
  and none in the record, which was never linked to it. Under the parallel strategy the
  second plan yields one entry per step and completes.
\<close>

theorem executeWorkflow_critical_failure_recorded_twice:
  "(case executeWorkflow failingExec 5 7 9 Map.empty () (PlanObj (StepsArray [criticalStep]) None) of
      (ret, reg, w) \<Rightarrow>
        ret = WfFailure (5, 7) ''Critical step s1 failed: boom''
        \<and> map_option status (reg (5, 7)) = Some Failed
        \<and> map_option wresults (reg (5, 7))
            = Some [ResultEntry ''s1'' False, ErrorEntry ''s1'' ''Critical step s1 failed: boom''])
   \<and> (case executeWorkflow failingExec 5 7 9 Map.empty ()
             (PlanObj (StepsArray [optionalStep, criticalStep]) (Some ''sequential'')) of
         (ret, reg, w) \<Rightarrow>
           ret = WfFailure (5, 7) ''Critical step s1 failed: boom''
           \<and> map_option status (reg (5, 7)) = Some Failed
           \<and> map_option wresults (reg (5, 7))
               = Some [ResultEntry ''s2'' False, ResultEntry ''s1'' False,
                       ErrorEntry ''s1'' ''Critical step s1 failed: boom''])
   \<and> (case executeSequential throwingExec [criticalStep] 0
              \<lparr>results = [], linked = False, cursor = None, world = ()\<rparr> of
         (c, st) \<Rightarrow> c = Throws ''boom'' \<and> results st = [ErrorEntry ''s1'' ''boom''] \<and> \<not> linked st)
   \<and> (case executeWorkflow throwingExec 5 7 9 Map.empty () (PlanObj (StepsArray [criticalStep]) None) of
         (ret, reg, w) \<Rightarrow>
           ret = WfFailure (5, 7) ''boom''
           \<and> map_option status (reg (5, 7)) = Some Failed
           \<and> map_option wresults (reg (5, 7)) = Some [])
   \<and> (case executeWorkflow failingExec 5 7 9 Map.empty ()
             (PlanObj (StepsArray [optionalStep, criticalStep]) (Some ''parallel'')) of
         (ret, reg, w) \<Rightarrow>
           ret = WfSuccess (5, 7) [ResultEntry ''s2'' False, ResultEntry ''s1'' False]
           \<and> map_option status (reg (5, 7)) = Some Completed)"
  by (simp add: executeWorkflow_def executeStep_def failingExec_def throwingExec_def
        criticalStep_def optionalStep_def Let_def)

subsection \<open>DynamicHandler: the alias table\<close>

text \<open>
  Nineteen of the twenty alias entries resolve through the alias path.
\<close>

lemma lowercase_alias_entries_resolve:
  "\<forall>(alias, canonical) \<in> set actionAliases.
      alias \<noteq> ''member.modifyNickname''
        \<longrightarrow> resolveAction None (Some alias) = Dispatch (OwnHandler canonical) canonical Alias"
  by code_simp

text \<open>
  C4 (evaluation at the failing input). The entry
  \<^verbatim>\<open>'member.modifyNickname': 'member.setNickname'\<close> has a capital letter in its key, and
  the table is only ever read under \<^verbatim>\<open>params.action.toLowerCase()\<close>. The identifier
  \<^verbatim>\<open>member.modifyNickname\<close> therefore misses the alias table and reaches the canonical
  action through \<^verbatim>\<open>_findSimilarAction\<close>, with similarity \<open>15/21\<close>.
\<close>

theorem modifyNickname_alias_resolves_by_similarity:
  "(''member.modifyNickname'', ''member.setNickname'') \<in> set actionAliases
   \<and> map_of actionAliases (toLowerCase ''member.modifyNickname'') = None
   \<and> calculateSimilarity (toLowerCase ''member.modifyNickname'') (toLowerCase ''member.setNickname'')
       = 15 / 21
   \<and> resolveAction None (Some ''member.modifyNickname'')
       = Dispatch (OwnHandler ''member.setNickname'') ''member.setNickname'' Fuzzy"
  by code_simp


subsection \<open>The Levenshtein distance\<close>

text \<open>
  The recursion \<open>lev\<close> yields the least number of single edits: no chain of edits is
  shorter, and a chain of that length exists.
\<close>

lemma lev_Nil2 [simp]: "lev xs [] = length xs"
  by (cases xs) simp_all

lemma lev_refl [simp]: "lev xs xs = 0"
  by (induction xs) simp_all

lemma lev_sym: "lev xs ys = lev ys xs"
  by (induction xs ys rule: lev.induct) (simp_all add: min.commute min.left_commute eq_commute)

text \<open>one more character in the target costs at most one more edit\<close>

lemma lev_grow_target: "lev xs (c # ys) \<le> Suc (lev xs ys)"
  by (cases xs) simp_all

lemma lev_grow_source: "lev (c # xs) ys \<le> Suc (lev xs ys)"
  by (cases ys) simp_all

lemma lev_shrink_target: "lev xs ys \<le> Suc (lev xs (c # ys))"
proof (induction xs)
  case Nil
  show ?case by simp
next
  case (Cons x xs)
  have a: "lev (x # xs) ys \<le> Suc (lev xs ys)" by (rule lev_grow_source)
  from Cons.IH a show ?case by simp
qed

lemma lev_change_target: "lev xs (d # ys) \<le> Suc (lev xs (c # ys))"
proof (induction xs)
  case Nil
  show ?case by simp
next
  case (Cons x xs)
  from Cons.IH show ?case by (simp add: min_def)
qed

lemma lev_under_cons:
  assumes "\<And>xs. lev xs zs \<le> Suc (lev xs ys)"
  shows "lev xs (c # zs) \<le> Suc (lev xs (c # ys))"
proof (induction xs)
  case Nil
  from assms [of "[]"] show ?case by simp
next
  case (Cons x xs)
  from Cons.IH assms [of xs] assms [of "x # xs"] show ?case by (simp add: min_def)
qed

lemma lev_under_prefix:
  assumes "\<And>xs. lev xs zs \<le> Suc (lev xs ys)"
  shows "lev xs (us @ zs) \<le> Suc (lev xs (us @ ys))"
proof (induction us arbitrary: xs)
  case Nil
  from assms show ?case by simp
next
  case (Cons u us)
  have "\<And>xs. lev xs (us @ zs) \<le> Suc (lev xs (us @ ys))" by (rule Cons.IH)
  from lev_under_cons [OF this] show ?case by simp
qed

lemma lev_edit1: "edit1 ys zs \<Longrightarrow> lev xs zs \<le> Suc (lev xs ys)"
proof (induction rule: edit1.induct)
  case (insertion us vs c)
  show ?case by (rule lev_under_prefix) (rule lev_grow_target)
next
  case (deletion us c vs)
  show ?case by (rule lev_under_prefix) (rule lev_shrink_target)
next
  case (substitution us c vs d)
  show ?case by (rule lev_under_prefix) (rule lev_change_target)
qed

lemma lev_le_edits: "(edit1 ^^ n) xs ys \<Longrightarrow> lev xs ys \<le> n"
proof (induction n arbitrary: ys)
  case 0
  then show ?case by simp
next
  case (Suc n)
  then obtain zs where z: "(edit1 ^^ n) xs zs" "edit1 zs ys" by auto
  from Suc.IH [OF z(1)] lev_edit1 [OF z(2), of xs] show ?case by simp
qed

lemma edit1_Cons: "edit1 xs ys \<Longrightarrow> edit1 (a # xs) (a # ys)"
proof (induction rule: edit1.induct)
  case (insertion us vs c)
  from edit1.insertion [of "a # us" vs c] show ?case by simp
next
  case (deletion us c vs)
  from edit1.deletion [of "a # us" c vs] show ?case by simp
next
  case (substitution us c vs d)
  from edit1.substitution [of "a # us" c vs d] show ?case by simp
qed

lemma edits_Cons: "(edit1 ^^ n) xs ys \<Longrightarrow> (edit1 ^^ n) (a # xs) (a # ys)"
proof (induction n arbitrary: ys)
  case 0
  then show ?case by simp
next
  case (Suc n)
  then obtain zs where z: "(edit1 ^^ n) xs zs" "edit1 zs ys" by auto
  from Suc.IH [OF z(1)] edit1_Cons [OF z(2)] show ?case by auto
qed

lemma edit1_insert_head: "edit1 ys (c # ys)"
  using edit1.insertion [of "[]" ys c] by simp

lemma edit1_delete_head: "edit1 (c # ys) ys"
  using edit1.deletion [of "[]" c ys] by simp

lemma edit1_change_head: "edit1 (c # ys) (d # ys)"
  using edit1.substitution [of "[]" c ys d] by simp

lemma edits_lev: "(edit1 ^^ lev xs ys) xs ys"
proof (induction xs ys rule: lev.induct)
  case (1 ys)
  show ?case
  proof (induction ys)
    case Nil
    show ?case by simp
  next
    case (Cons y ys)
    then have "(edit1 ^^ length ys) [] ys" by simp
    with edit1_insert_head [of ys y] show ?case by auto
  qed
next
  case (2 x xs)
  have "(edit1 ^^ length xs) xs []"
  proof (induction xs)
    case Nil
    show ?case by simp
  next
    case (Cons x xs)
    from relpowp_Suc_I2 [OF edit1_delete_head Cons] show ?case by simp
  qed
  from relpowp_Suc_I2 [OF edit1_delete_head this] show ?case by simp
next
  case (3 x xs y ys)
  let ?a = "lev xs ys + (if x = y then 0 else 1)"
  let ?b = "lev (x # xs) ys + 1"
  let ?c = "lev xs (y # ys) + 1"
  have A: "(edit1 ^^ ?a) (x # xs) (y # ys)"
  proof (cases "x = y")
    case True
    with edits_Cons [OF "3.IH"(1), of x] show ?thesis by simp
  next
    case False
    from relpowp_Suc_I [OF edits_Cons [OF "3.IH"(1), of x] edit1_change_head [of x ys y]] False
    show ?thesis by simp
  qed
  have B: "(edit1 ^^ ?b) (x # xs) (y # ys)"
    using relpowp_Suc_I [OF "3.IH"(2) edit1_insert_head [of ys y]] by simp
  have C: "(edit1 ^^ ?c) (x # xs) (y # ys)"
    using relpowp_Suc_I2 [OF edit1_delete_head [of x xs] "3.IH"(3)] by simp
  have "lev (x # xs) (y # ys) = ?a \<or> lev (x # xs) (y # ys) = ?b \<or> lev (x # xs) (y # ys) = ?c"
    by (simp add: min_def)
  with A B C show ?case by metis
qed

theorem editDistance_lev: "editDistance xs ys = lev xs ys"
  unfolding editDistance_def
  by (rule Least_equality) (rule edits_lev, rule lev_le_edits)

lemma edit1_rev: "edit1 xs ys \<Longrightarrow> edit1 (rev xs) (rev ys)"
proof (induction rule: edit1.induct)
  case (insertion us vs c)
  from edit1.insertion [of "rev vs" "rev us" c] show ?case by simp
next
  case (deletion us c vs)
  from edit1.deletion [of "rev vs" c "rev us"] show ?case by simp
next
  case (substitution us c vs d)
  from edit1.substitution [of "rev vs" c "rev us" d] show ?case by simp
qed

lemma edits_rev: "(edit1 ^^ n) xs ys \<Longrightarrow> (edit1 ^^ n) (rev xs) (rev ys)"
proof (induction n arbitrary: ys)
  case 0
  then show ?case by simp
next
  case (Suc n)
  then obtain zs where z: "(edit1 ^^ n) xs zs" "edit1 zs ys" by auto
  from Suc.IH [OF z(1)] edit1_rev [OF z(2)] show ?case by auto
qed

lemma lev_rev: "lev (rev xs) (rev ys) = lev xs ys"
proof (rule antisym)
  show "lev (rev xs) (rev ys) \<le> lev xs ys"
    by (rule lev_le_edits) (rule edits_rev, rule edits_lev)
  have "(edit1 ^^ lev (rev xs) (rev ys)) (rev (rev xs)) (rev (rev ys))"
    by (rule edits_rev) (rule edits_lev)
  then show "lev xs ys \<le> lev (rev xs) (rev ys)"
    by (simp add: lev_le_edits)
qed

lemma lev_snoc:
  "lev (xs @ [x]) (ys @ [y]) =
     min (lev xs ys + (if x = y then 0 else 1)) (min (lev (xs @ [x]) ys + 1) (lev xs (ys @ [y]) + 1))"
proof -
  have "lev (xs @ [x]) (ys @ [y]) = lev (x # rev xs) (y # rev ys)"
    using lev_rev [of "xs @ [x]" "ys @ [y]"] by simp
  also have "\<dots> = min (lev (rev xs) (rev ys) + (if x = y then 0 else 1))
                     (min (lev (x # rev xs) (rev ys) + 1) (lev (rev xs) (y # rev ys) + 1))"
    by simp
  also have "lev (rev xs) (rev ys) = lev xs ys" by (rule lev_rev)
  also have "lev (x # rev xs) (rev ys) = lev (xs @ [x]) ys" using lev_rev [of "xs @ [x]" ys] by simp
  also have "lev (rev xs) (y # rev ys) = lev xs (ys @ [y])" using lev_rev [of xs "ys @ [y]"] by simp
  finally show ?thesis .
qed

lemma lev_snoc_same: "lev (xs @ [x]) (ys @ [x]) = lev xs ys"
proof -
  have a: "lev xs ys \<le> Suc (lev xs (ys @ [x]))"
    using lev_edit1 [OF edit1.deletion [of ys x "[]"], of xs] by simp
  have "lev ys xs \<le> Suc (lev ys (xs @ [x]))"
    using lev_edit1 [OF edit1.deletion [of xs x "[]"], of ys] by simp
  then have b: "lev xs ys \<le> Suc (lev (xs @ [x]) ys)" by (simp add: lev_sym)
  from a b show ?thesis by (simp add: lev_snoc)
qed

subsection \<open>\<^verbatim>\<open>_levenshteinDistance\<close> computes the Levenshtein distance\<close>

text \<open>
  Entry \<open>j\<close> of row \<open>i\<close> of the matrix is the distance between the first \<open>i\<close>
  characters of \<open>b\<close> and the first \<open>j\<close> characters of \<open>a\<close>. Copying the diagonal entry
  when the two characters agree, without looking at the neighbours, is justified by
  \<open>lev_snoc_same\<close>.
\<close>

lemma matrixRow_nth: "j \<le> length a \<Longrightarrow> matrixRow a b i ! j = prefixDistance a b i j"
  unfolding matrixRow_def by (simp del: upt_Suc)

lemma prefixDistance_step:
  assumes i: "1 \<le> i" "i \<le> length b" and j: "1 \<le> j" "j \<le> length a"
  shows "prefixDistance a b i j =
           (if b ! (i - 1) = a ! (j - 1) then prefixDistance a b (i - 1) (j - 1)
            else min (prefixDistance a b (i - 1) (j - 1) + 1)
                   (min (prefixDistance a b i (j - 1) + 1) (prefixDistance a b (i - 1) j + 1)))"
proof -
  from i have tb: "take i b = take (i - 1) b @ [b ! (i - 1)]"
    using take_Suc_conv_app_nth [of "i - 1" b] by simp
  from j have ta: "take j a = take (j - 1) a @ [a ! (j - 1)]"
    using take_Suc_conv_app_nth [of "j - 1" a] by simp
  show ?thesis
  proof (cases "b ! (i - 1) = a ! (j - 1)")
    case True
    have "prefixDistance a b i j = lev (take (i - 1) b @ [a ! (j - 1)]) (take (j - 1) a @ [a ! (j - 1)])"
      unfolding prefixDistance_def using True by (subst tb, subst ta) simp
    also have "\<dots> = prefixDistance a b (i - 1) (j - 1)"
      unfolding prefixDistance_def by (rule lev_snoc_same)
    finally show ?thesis using True by simp
  next
    case False
    have "prefixDistance a b i j = lev (take (i - 1) b @ [b ! (i - 1)]) (take (j - 1) a @ [a ! (j - 1)])"
      unfolding prefixDistance_def by (subst tb, subst ta) simp
    also have "\<dots> = min (lev (take (i - 1) b) (take (j - 1) a) + 1)
                       (min (lev (take (i - 1) b @ [b ! (i - 1)]) (take (j - 1) a) + 1)
                            (lev (take (i - 1) b) (take (j - 1) a @ [a ! (j - 1)]) + 1))"
      using False by (simp add: lev_snoc)
    also have "\<dots> = min (prefixDistance a b (i - 1) (j - 1) + 1)
                   (min (prefixDistance a b i (j - 1) + 1) (prefixDistance a b (i - 1) j + 1))"
      unfolding prefixDistance_def using tb ta by simp
    finally show ?thesis using False by simp
  qed
qed

lemma fill_row_correct:
  assumes i: "1 \<le> i" "i \<le> length b"
  shows "rest = drop (j - 1) a \<Longrightarrow> 1 \<le> j \<Longrightarrow> j \<le> Suc (length a)
     \<Longrightarrow> row = map (prefixDistance a b i) [0 ..< j]
     \<Longrightarrow> fill_row (b ! (i - 1)) rest j (matrixRow a b (i - 1)) row = matrixRow a b i"
proof (induction rest arbitrary: j row)
  case Nil
  then have "j = Suc (length a)" by simp
  with Nil show ?case by (simp add: matrixRow_def del: upt_Suc)
next
  case (Cons ac rest)
  from Cons.prems(1) have jl: "j - 1 < length a"
    by (metis drop_all list.distinct(1) not_le_imp_less)
  with Cons.prems(2) have j: "1 \<le> j" "j \<le> length a" by simp_all
  from Cons.prems(1) jl have ac: "ac = a ! (j - 1)"
    by (metis Cons_nth_drop_Suc list.inject)
  from Cons.prems(1) jl have rest: "rest = drop ((j + 1) - 1) a"
    by (metis Cons_nth_drop_Suc Cons.prems(2) add_diff_cancel_right' list.inject le_add_diff_inverse2 Suc_eq_plus1)
  have p1: "matrixRow a b (i - 1) ! (j - 1) = prefixDistance a b (i - 1) (j - 1)"
    using j by (simp add: matrixRow_nth)
  have p2: "matrixRow a b (i - 1) ! j = prefixDistance a b (i - 1) j"
    using j by (simp add: matrixRow_nth)
  have p3: "row ! (j - 1) = prefixDistance a b i (j - 1)"
    using Cons.prems(4) j by simp
  define v where "v = (if b ! (i - 1) = ac then matrixRow a b (i - 1) ! (j - 1)
               else min (matrixRow a b (i - 1) ! (j - 1) + 1)
                      (min (row ! (j - 1) + 1) (matrixRow a b (i - 1) ! j + 1)))"
  have v: "v = prefixDistance a b i j"
    unfolding v_def p1 p2 p3 ac using prefixDistance_step [OF i j] by simp
  have row': "row @ [v] = map (prefixDistance a b i) [0 ..< j + 1]"
    using Cons.prems(4) v by simp
  have "fill_row (b ! (i - 1)) (ac # rest) j (matrixRow a b (i - 1)) row
          = fill_row (b ! (i - 1)) rest (j + 1) (matrixRow a b (i - 1)) (row @ [v])"
    by (simp add: v_def)
  also have "\<dots> = matrixRow a b i"
    using Cons.IH [OF rest _ _ row'] j by simp
  finally show ?case .
qed

lemma fill_matrix_correct:
  "rest = drop (i - 1) b \<Longrightarrow> 1 \<le> i \<Longrightarrow> i \<le> Suc (length b)
     \<Longrightarrow> m = map (matrixRow a b) [0 ..< i]
     \<Longrightarrow> fill_matrix a rest i m = map (matrixRow a b) [0 ..< Suc (length b)]"
proof (induction rest arbitrary: i m)
  case Nil
  then have "i = Suc (length b)" by simp
  with Nil show ?case by simp
next
  case (Cons bc rest)
  from Cons.prems(1) have il: "i - 1 < length b"
    by (metis drop_all list.distinct(1) not_le_imp_less)
  with Cons.prems(2) have i: "1 \<le> i" "i \<le> length b" by simp_all
  from Cons.prems(1) il have bc: "bc = b ! (i - 1)"
    by (metis Cons_nth_drop_Suc list.inject)
  from Cons.prems(1) il have rest: "rest = drop ((i + 1) - 1) b"
    by (metis Cons_nth_drop_Suc Cons.prems(2) add_diff_cancel_right' list.inject le_add_diff_inverse2 Suc_eq_plus1)
  have prev: "m ! (i - 1) = matrixRow a b (i - 1)"
    using Cons.prems(4) i by simp
  have start: "[i] = map (prefixDistance a b i) [0 ..< 1]"
    using i by (simp add: prefixDistance_def)
  have row: "fill_row bc a 1 (m ! (i - 1)) [i] = matrixRow a b i"
    unfolding bc prev using fill_row_correct [OF i, of a 1 a "[i]"] start by simp
  have m': "m @ [matrixRow a b i] = map (matrixRow a b) [0 ..< i + 1]"
    using Cons.prems(4) by simp
  have "fill_matrix a (bc # rest) i m = fill_matrix a rest (i + 1) (m @ [matrixRow a b i])"
    using row by simp
  also have "\<dots> = map (matrixRow a b) [0 ..< Suc (length b)]"
    using Cons.IH [OF rest _ _ m'] i by simp
  finally show ?case .
qed

lemma matrixRow_0: "matrixRow a b 0 = [0 ..< length a + 1]"
  unfolding matrixRow_def prefixDistance_def
  by (rule nth_equalityI) (simp_all del: upt_Suc)

theorem levenshteinDistance_lev: "levenshteinDistance a b = lev a b"
proof (cases "length a = 0 \<or> length b = 0")
  case True
  then show ?thesis by (auto simp: levenshteinDistance_def)
next
  case False
  have "fill_matrix a b 1 [[0 ..< length a + 1]] = map (matrixRow a b) [0 ..< Suc (length b)]"
    using fill_matrix_correct [of b 1 b "[[0 ..< length a + 1]]" a] matrixRow_0 [of a b] by simp
  then have "fill_matrix a b 1 [[0 ..< length a + 1]] ! length b ! length a
               = prefixDistance a b (length b) (length a)"
    by (simp add: matrixRow_nth del: upt_Suc)
  with False show ?thesis
    by (simp add: levenshteinDistance_def prefixDistance_def lev_sym)
qed

theorem levenshteinDistance_editDistance: "levenshteinDistance a b = editDistance a b"
  by (simp add: levenshteinDistance_lev editDistance_lev)

subsection \<open>DynamicHandler: the fuzzy rule\<close>

lemma normalizedSimilarity_computed:
  "normalizedSimilarity a b =
     (of_nat (max (length a) (length b)) - of_nat (levenshteinDistance a b))
       / of_nat (max (length a) (length b))"
  by (simp add: normalizedSimilarity_def levenshteinDistance_editDistance)

lemma calculateSimilarity_normalized:
  "b \<noteq> [] \<Longrightarrow> calculateSimilarity a b = normalizedSimilarity a b"
  by (cases b) (simp_all add: calculateSimilarity_def normalizedSimilarity_computed Let_def)

lemma validActions_nonempty: "c \<in> set validActions \<Longrightarrow> toLowerCase c \<noteq> []"
  by (auto simp: validActions_def toLowerCase_def)

lemma sameCategoryActions_subset: "set (sameCategoryActions n) \<subseteq> set validActions"
  by (auto simp: sameCategoryActions_def)

lemma best_loop_result:
  "best_loop n cs (bm, bs) = (bm', bs') \<Longrightarrow>
     bs \<le> bs' \<and> (\<forall>c\<in>set cs. calculateSimilarity n (toLowerCase c) \<le> bs') \<and>
     ((bm' = bm \<and> bs' = bs) \<or>
      (\<exists>pre c post. cs = pre @ c # post \<and> bm' = Some c
         \<and> bs' = calculateSimilarity n (toLowerCase c) \<and> bs < bs'
         \<and> (\<forall>c'\<in>set pre. calculateSimilarity n (toLowerCase c') < bs')))"
proof (induction cs arbitrary: bm bs)
  case Nil
  then show ?case by simp
next
  case (Cons c cs)
  let ?s = "calculateSimilarity n (toLowerCase c)"
  show ?case
  proof (cases "?s > bs")
    case True
    with Cons.prems have r: "best_loop n cs (Some c, ?s) = (bm', bs')" by (simp add: Let_def)
    from Cons.IH [OF r] have le: "?s \<le> bs'"
      and all: "\<forall>c\<in>set cs. calculateSimilarity n (toLowerCase c) \<le> bs'"
      and alt: "(bm' = Some c \<and> bs' = ?s) \<or>
         (\<exists>pre c2 post. cs = pre @ c2 # post \<and> bm' = Some c2
            \<and> bs' = calculateSimilarity n (toLowerCase c2) \<and> ?s < bs'
            \<and> (\<forall>c'\<in>set pre. calculateSimilarity n (toLowerCase c') < bs'))"
      by auto
    from alt have "\<exists>pre c2 post. c # cs = pre @ c2 # post \<and> bm' = Some c2
         \<and> bs' = calculateSimilarity n (toLowerCase c2) \<and> bs < bs'
         \<and> (\<forall>c'\<in>set pre. calculateSimilarity n (toLowerCase c') < bs')"
    proof
      assume "bm' = Some c \<and> bs' = ?s"
      with True have "c # cs = [] @ c # cs \<and> bm' = Some c \<and> bs' = ?s \<and> bs < bs'
         \<and> (\<forall>c'\<in>set []. calculateSimilarity n (toLowerCase c') < bs')" by simp
      then show ?thesis by blast
    next
      assume "\<exists>pre c2 post. cs = pre @ c2 # post \<and> bm' = Some c2
            \<and> bs' = calculateSimilarity n (toLowerCase c2) \<and> ?s < bs'
            \<and> (\<forall>c'\<in>set pre. calculateSimilarity n (toLowerCase c') < bs')"
      then obtain pre c2 post where p: "cs = pre @ c2 # post" "bm' = Some c2"
            "bs' = calculateSimilarity n (toLowerCase c2)" "?s < bs'"
            "\<forall>c'\<in>set pre. calculateSimilarity n (toLowerCase c') < bs'" by blast
      with True have "c # cs = (c # pre) @ c2 # post \<and> bm' = Some c2
         \<and> bs' = calculateSimilarity n (toLowerCase c2) \<and> bs < bs'
         \<and> (\<forall>c'\<in>set (c # pre). calculateSimilarity n (toLowerCase c') < bs')" by simp
      then show ?thesis by blast
    qed
    with le all True show ?thesis by auto
  next
    case False
    with Cons.prems have r: "best_loop n cs (bm, bs) = (bm', bs')" by (simp add: Let_def)
    from Cons.IH [OF r] have le: "bs \<le> bs'"
      and all: "\<forall>c\<in>set cs. calculateSimilarity n (toLowerCase c) \<le> bs'"
      and alt: "(bm' = bm \<and> bs' = bs) \<or>
         (\<exists>pre c2 post. cs = pre @ c2 # post \<and> bm' = Some c2
            \<and> bs' = calculateSimilarity n (toLowerCase c2) \<and> bs < bs'
            \<and> (\<forall>c'\<in>set pre. calculateSimilarity n (toLowerCase c') < bs'))"
      by auto
    from alt have "(bm' = bm \<and> bs' = bs) \<or> (\<exists>pre c2 post. c # cs = pre @ c2 # post \<and> bm' = Some c2
         \<and> bs' = calculateSimilarity n (toLowerCase c2) \<and> bs < bs'
         \<and> (\<forall>c'\<in>set pre. calculateSimilarity n (toLowerCase c') < bs'))"
    proof
      assume "bm' = bm \<and> bs' = bs"
      then show ?thesis by simp
    next
      assume "\<exists>pre c2 post. cs = pre @ c2 # post \<and> bm' = Some c2
            \<and> bs' = calculateSimilarity n (toLowerCase c2) \<and> bs < bs'
            \<and> (\<forall>c'\<in>set pre. calculateSimilarity n (toLowerCase c') < bs')"
      then obtain pre c2 post where p: "cs = pre @ c2 # post" "bm' = Some c2"
            "bs' = calculateSimilarity n (toLowerCase c2)" "bs < bs'"
            "\<forall>c'\<in>set pre. calculateSimilarity n (toLowerCase c') < bs'" by blast
      with False have "c # cs = (c # pre) @ c2 # post \<and> bm' = Some c2
         \<and> bs' = calculateSimilarity n (toLowerCase c2) \<and> bs < bs'
         \<and> (\<forall>c'\<in>set (c # pre). calculateSimilarity n (toLowerCase c') < bs')" by simp
      then show ?thesis by blast
    qed
    with le all False show ?thesis by auto
  qed
qed

text \<open>the loop from its initial state, read with the threshold\<close>

lemma best_loop_threshold:
  assumes sub: "set cs \<subseteq> set validActions"
    and run: "best_loop n cs (None, 0) = (bm', bs')"
  shows "((\<exists>c\<in>set cs. 6 / 10 \<le> normalizedSimilarity n (toLowerCase c)) \<longleftrightarrow> 6 / 10 \<le> bs')"
    and "6 / 10 \<le> bs' \<Longrightarrow>
           \<exists>pre c post. cs = pre @ c # post \<and> bm' = Some c
             \<and> 6 / 10 \<le> normalizedSimilarity n (toLowerCase c)
             \<and> (\<forall>c'\<in>set pre. normalizedSimilarity n (toLowerCase c')
                                < normalizedSimilarity n (toLowerCase c))
             \<and> (\<forall>c'\<in>set post. normalizedSimilarity n (toLowerCase c')
                                \<le> normalizedSimilarity n (toLowerCase c))"
proof -
  have sim: "\<And>c. c \<in> set cs \<Longrightarrow> calculateSimilarity n (toLowerCase c) = normalizedSimilarity n (toLowerCase c)"
    using sub validActions_nonempty calculateSimilarity_normalized by blast
  from best_loop_result [OF run]
  have all: "\<forall>c\<in>set cs. calculateSimilarity n (toLowerCase c) \<le> bs'"
    and alt: "(bm' = None \<and> bs' = 0) \<or>
      (\<exists>pre c post. cs = pre @ c # post \<and> bm' = Some c
         \<and> bs' = calculateSimilarity n (toLowerCase c) \<and> 0 < bs'
         \<and> (\<forall>c'\<in>set pre. calculateSimilarity n (toLowerCase c') < bs'))"
    by auto
  show "((\<exists>c\<in>set cs. 6 / 10 \<le> normalizedSimilarity n (toLowerCase c)) \<longleftrightarrow> 6 / 10 \<le> bs')"
  proof
    assume "\<exists>c\<in>set cs. 6 / 10 \<le> normalizedSimilarity n (toLowerCase c)"
    then obtain c where "c \<in> set cs" "6 / 10 \<le> normalizedSimilarity n (toLowerCase c)" by blast
    with all sim [of c] show "6 / 10 \<le> bs'" by force
  next
    assume h: "6 / 10 \<le> bs'"
    with alt obtain pre c post where "cs = pre @ c # post" "bs' = calculateSimilarity n (toLowerCase c)"
      by auto
    with h sim [of c] show "\<exists>c\<in>set cs. 6 / 10 \<le> normalizedSimilarity n (toLowerCase c)" by auto
  qed
  show "\<exists>pre c post. cs = pre @ c # post \<and> bm' = Some c
             \<and> 6 / 10 \<le> normalizedSimilarity n (toLowerCase c)
             \<and> (\<forall>c'\<in>set pre. normalizedSimilarity n (toLowerCase c')
                                < normalizedSimilarity n (toLowerCase c))
             \<and> (\<forall>c'\<in>set post. normalizedSimilarity n (toLowerCase c')
                                \<le> normalizedSimilarity n (toLowerCase c))"
    if h: "6 / 10 \<le> bs'"
  proof -
    from h alt obtain pre c post where p: "cs = pre @ c # post" "bm' = Some c"
         "bs' = calculateSimilarity n (toLowerCase c)"
         "\<forall>c'\<in>set pre. calculateSimilarity n (toLowerCase c') < bs'"
      by auto
    have c: "calculateSimilarity n (toLowerCase c) = normalizedSimilarity n (toLowerCase c)"
      using sim [of c] p(1) by simp
    have "cs = pre @ c # post \<and> bm' = Some c
             \<and> 6 / 10 \<le> normalizedSimilarity n (toLowerCase c)
             \<and> (\<forall>c'\<in>set pre. normalizedSimilarity n (toLowerCase c')
                                < normalizedSimilarity n (toLowerCase c))
             \<and> (\<forall>c'\<in>set post. normalizedSimilarity n (toLowerCase c')
                                \<le> normalizedSimilarity n (toLowerCase c))"
      using p h c all sim by auto
    then show ?thesis by blast
  qed
qed

lemma fuzzyCandidates_subset: "set (fuzzyCandidates n) \<subseteq> set validActions"
  using sameCategoryActions_subset by (auto simp: fuzzyCandidates_def)

lemma findSimilarAction_valid:
  assumes "findSimilarAction raw = Some c"
  shows "c \<in> set validActions"
proof -
  define n where "n = toLowerCase raw"
  show ?thesis
  proof (cases "CHR ''.'' \<in> set n \<and> sameCategoryActions n \<noteq> []")
    case True
    obtain bm bs where run: "best_loop n (sameCategoryActions n) (None, 0) = (bm, bs)"
      by (cases "best_loop n (sameCategoryActions n) (None, 0)")
    from True obtain first others where fo: "sameCategoryActions n = first # others"
      by (cases "sameCategoryActions n") auto
    show ?thesis
    proof (cases "6 / 10 \<le> bs")
      case t: True
      from best_loop_threshold(2) [OF sameCategoryActions_subset run t] obtain pre c2 post
        where "sameCategoryActions n = pre @ c2 # post" "bm = Some c2" by blast
      moreover from assms True run t have "bm = Some c"
        by (simp add: findSimilarAction_def Let_def n_def SIMILARITY_THRESHOLD_def)
      ultimately have "c \<in> set (sameCategoryActions n)" by auto
      with sameCategoryActions_subset show ?thesis by blast
    next
      case f: False
      with assms True run fo have "c = first"
        by (simp add: findSimilarAction_def Let_def n_def SIMILARITY_THRESHOLD_def)
      with fo have "c \<in> set (sameCategoryActions n)" by simp
      with sameCategoryActions_subset show ?thesis by blast
    qed
  next
    case False
    obtain bm bs where run: "best_loop n validActions (None, 0) = (bm, bs)"
      by (cases "best_loop n validActions (None, 0)")
    from assms False run have t: "6 / 10 \<le> bs" and b: "bm = Some c"
      by (auto simp: findSimilarAction_def Let_def n_def SIMILARITY_THRESHOLD_def split: if_splits)
    from best_loop_threshold(2) [OF subset_refl run t] obtain pre c2 post
      where "validActions = pre @ c2 # post" "bm = Some c2" by blast
    with b have e: "validActions = pre @ c # post" by simp
    show ?thesis by (subst e) simp
  qed
qed

text \<open>
  C5 (the claim as stated fails). \<^verbatim>\<open>member.nickchange\<close> is no canonical identifier and no
  alias. Five canonical identifiers share its category prefix, and its similarity to
  each of them is below 0.6 (to \<^verbatim>\<open>member.setNickname\<close> it is 10/18), so by the rule as
  stated the first of them, \<^verbatim>\<open>member.timeout\<close>, would be returned. The resolver returns
  \<^verbatim>\<open>member.setNickname\<close>: it compares the lower-cased identifier with the lower-cased
  \<^verbatim>\<open>member.setnickname\<close>, and that similarity is 11/18.
\<close>

theorem fuzzy_rule_on_canonical_identifiers_counterexample:
  "actionMapping nickchange = None
   \<and> map_of actionAliases (toLowerCase nickchange) = None
   \<and> filter (\<lambda>c. startsWith c (categoryOf nickchange @ ''.'')) validActions
       = [''member.timeout'', ''member.kick'', ''member.ban'', ''member.unban'', ''member.setNickname'']
   \<and> list_all (\<lambda>c. normalizedSimilarity nickchange c < 6 / 10)
         [''member.timeout'', ''member.kick'', ''member.ban'', ''member.unban'', ''member.setNickname'']
   \<and> normalizedSimilarity nickchange ''member.setNickname'' = 10 / 18
   \<and> normalizedSimilarity (toLowerCase nickchange) (toLowerCase ''member.setNickname'') = 11 / 18
   \<and> findSimilarAction nickchange = Some ''member.setNickname''
   \<and> findSimilarAction nickchange \<noteq> Some ''member.timeout''
   \<and> resolveAction None (Some nickchange)
       = Dispatch (OwnHandler ''member.setNickname'') ''member.setNickname'' Fuzzy"
  unfolding normalizedSimilarity_computed by code_simp

text \<open>
  C5 (amended). The resolver lower-cases the raw identifier and every candidate before
  comparing them. The candidates are the canonical identifiers that share the category
  prefix of the lower-cased identifier, or the full canonical set when the identifier
  has no category or none shares it. The score of a candidate is
  \<open>(maxLen - editDistance) / maxLen\<close> on the two lower-cased texts, with the
  Levenshtein distance as \<open>editDistance\<close>. If some candidate scores at least 0.6, the
  resolver returns the first candidate with the highest score. Otherwise it returns the
  first identifier of the same category when the identifier has a category that some
  canonical identifier shares, and no match otherwise. For an identifier with no exact
  and no alias match this decides \<^verbatim>\<open>executeAction\<close>: the handler of the identifier found
  is run, and a dynamic extension is created when there is no match.
\<close>

theorem findSimilarAction_fuzzy_rule:
  "((\<exists>c\<in>set (fuzzyCandidates (toLowerCase raw)).
        6 / 10 \<le> normalizedSimilarity (toLowerCase raw) (toLowerCase c))
      \<longrightarrow> (\<exists>pre c post. fuzzyCandidates (toLowerCase raw) = pre @ c # post
             \<and> findSimilarAction raw = Some c
             \<and> 6 / 10 \<le> normalizedSimilarity (toLowerCase raw) (toLowerCase c)
             \<and> (\<forall>c'\<in>set pre. normalizedSimilarity (toLowerCase raw) (toLowerCase c')
                                < normalizedSimilarity (toLowerCase raw) (toLowerCase c))
             \<and> (\<forall>c'\<in>set post. normalizedSimilarity (toLowerCase raw) (toLowerCase c')
                                \<le> normalizedSimilarity (toLowerCase raw) (toLowerCase c))))
   \<and> (\<not> (\<exists>c\<in>set (fuzzyCandidates (toLowerCase raw)).
        6 / 10 \<le> normalizedSimilarity (toLowerCase raw) (toLowerCase c))
      \<longrightarrow> findSimilarAction raw =
            (case sameCategoryActions (toLowerCase raw) of
               [] \<Rightarrow> None
             | first # others \<Rightarrow> if CHR ''.'' \<in> set (toLowerCase raw) then Some first else None))
   \<and> (actionMapping raw = None \<and> map_of actionAliases (toLowerCase raw) = None
      \<longrightarrow> resolveAction None (Some raw) =
            (case findSimilarAction raw of
               None \<Rightarrow> DynamicExtension
             | Some c \<Rightarrow> Dispatch (OwnHandler c) c Fuzzy))
   \<and> (\<forall>c\<in>set validActions.
        calculateSimilarity (toLowerCase raw) (toLowerCase c)
          = (of_nat (max (length raw) (length c))
               - of_nat (editDistance (toLowerCase raw) (toLowerCase c)))
            / of_nat (max (length raw) (length c)))"
proof -
  define n where "n = toLowerCase raw"
  define sim where "sim = (\<lambda>c. normalizedSimilarity n (toLowerCase c))"
  obtain bm bs where run: "best_loop n (fuzzyCandidates n) (None, 0) = (bm, bs)"
    by (cases "best_loop n (fuzzyCandidates n) (None, 0)")
  note th = best_loop_threshold [OF fuzzyCandidates_subset run]
  have fsa: "findSimilarAction raw =
               (if 6 / 10 \<le> bs then bm
                else if CHR ''.'' \<in> set n \<and> sameCategoryActions n \<noteq> []
                     then (case sameCategoryActions n of first # others \<Rightarrow> Some first | [] \<Rightarrow> None)
                     else None)"
    using run
    by (auto simp: findSimilarAction_def fuzzyCandidates_def Let_def n_def SIMILARITY_THRESHOLD_def
             split: if_splits)
  have A: "(\<exists>c\<in>set (fuzzyCandidates n). 6 / 10 \<le> sim c)
      \<longrightarrow> (\<exists>pre c post. fuzzyCandidates n = pre @ c # post
             \<and> findSimilarAction raw = Some c \<and> 6 / 10 \<le> sim c
             \<and> (\<forall>c'\<in>set pre. sim c' < sim c) \<and> (\<forall>c'\<in>set post. sim c' \<le> sim c))"
  proof
    assume "\<exists>c\<in>set (fuzzyCandidates n). 6 / 10 \<le> sim c"
    with th(1) have t: "6 / 10 \<le> bs" by (simp add: sim_def)
    from th(2) [OF t] fsa t
    show "\<exists>pre c post. fuzzyCandidates n = pre @ c # post
             \<and> findSimilarAction raw = Some c \<and> 6 / 10 \<le> sim c
             \<and> (\<forall>c'\<in>set pre. sim c' < sim c) \<and> (\<forall>c'\<in>set post. sim c' \<le> sim c)"
      unfolding sim_def by auto
  qed
  have B: "\<not> (\<exists>c\<in>set (fuzzyCandidates n). 6 / 10 \<le> sim c)
      \<longrightarrow> findSimilarAction raw =
            (case sameCategoryActions n of
               [] \<Rightarrow> None
             | first # others \<Rightarrow> if CHR ''.'' \<in> set n then Some first else None)"
  proof
    assume "\<not> (\<exists>c\<in>set (fuzzyCandidates n). 6 / 10 \<le> sim c)"
    with th(1) have "\<not> 6 / 10 \<le> bs" by (simp add: sim_def)
    with fsa show "findSimilarAction raw =
            (case sameCategoryActions n of
               [] \<Rightarrow> None
             | first # others \<Rightarrow> if CHR ''.'' \<in> set n then Some first else None)"
      by (cases "sameCategoryActions n") auto
  qed
  have C: "actionMapping raw = None \<and> map_of actionAliases n = None
      \<longrightarrow> resolveAction None (Some raw) =
            (case findSimilarAction raw of
               None \<Rightarrow> DynamicExtension
             | Some c \<Rightarrow> Dispatch (OwnHandler c) c Fuzzy)"
  proof
    assume h: "actionMapping raw = None \<and> map_of actionAliases n = None"
    show "resolveAction None (Some raw) =
            (case findSimilarAction raw of
               None \<Rightarrow> DynamicExtension
             | Some c \<Rightarrow> Dispatch (OwnHandler c) c Fuzzy)"
    proof (cases "findSimilarAction raw")
      case None
      with h show ?thesis by (simp add: resolveAction_def n_def)
    next
      case (Some c)
      from findSimilarAction_valid [OF Some] have "actionMapping c = Some (OwnHandler c)"
        by (simp add: actionMapping_def)
      with h Some show ?thesis by (simp add: resolveAction_def n_def)
    qed
  qed
  have D: "\<forall>c\<in>set validActions.
        calculateSimilarity n (toLowerCase c)
          = (of_nat (max (length raw) (length c)) - of_nat (editDistance n (toLowerCase c)))
            / of_nat (max (length raw) (length c))"
  proof
    fix c assume "c \<in> set validActions"
    from calculateSimilarity_normalized [OF validActions_nonempty [OF this], of n]
    show "calculateSimilarity n (toLowerCase c)
          = (of_nat (max (length raw) (length c)) - of_nat (editDistance n (toLowerCase c)))
            / of_nat (max (length raw) (length c))"
      by (simp add: normalizedSimilarity_def n_def toLowerCase_def)
  qed
  from A B C D show ?thesis unfolding n_def sim_def by blast
qed

theorem findSimilarAction_fuzzy_rule_witness:
  "(\<exists>c. findSimilarAction ''memeber.timeot'' = Some c
        \<and> 6 / 10 \<le> normalizedSimilarity (toLowerCase ''memeber.timeot'') (toLowerCase c))
   \<and> findSimilarAction ''member.zzzzzzzzzzzz'' = Some ''member.timeout''
   \<and> findSimilarAction ''zzz'' = None
   \<and> resolveAction None (Some ''zzz'') = DynamicExtension"
proof -
  have h1: "\<exists>c\<in>set (fuzzyCandidates (toLowerCase ''memeber.timeot'')).
        6 / 10 \<le> normalizedSimilarity (toLowerCase ''memeber.timeot'') (toLowerCase c)"
    unfolding normalizedSimilarity_computed by code_simp
  have h2: "\<not> (\<exists>c\<in>set (fuzzyCandidates (toLowerCase ''member.zzzzzzzzzzzz'')).
        6 / 10 \<le> normalizedSimilarity (toLowerCase ''member.zzzzzzzzzzzz'') (toLowerCase c))"
    unfolding normalizedSimilarity_computed by code_simp
  have h3: "\<not> (\<exists>c\<in>set (fuzzyCandidates (toLowerCase ''zzz'')).
        6 / 10 \<le> normalizedSimilarity (toLowerCase ''zzz'') (toLowerCase c))"
    unfolding normalizedSimilarity_computed by code_simp
  have s2: "(case sameCategoryActions (toLowerCase ''member.zzzzzzzzzzzz'') of
               [] \<Rightarrow> None
             | first # others \<Rightarrow>
                 if CHR ''.'' \<in> set (toLowerCase ''member.zzzzzzzzzzzz'') then Some first else None)
            = Some ''member.timeout''"
    by code_simp
  have s3: "(case sameCategoryActions (toLowerCase ''zzz'') of
               [] \<Rightarrow> None
             | first # others \<Rightarrow>
                 if CHR ''.'' \<in> set (toLowerCase ''zzz'') then Some first else None)
            = None"
    by code_simp
  have a3: "actionMapping ''zzz'' = None \<and> map_of actionAliases (toLowerCase ''zzz'') = None"
    by code_simp
  from findSimilarAction_fuzzy_rule [of "''memeber.timeot''"] h1
  have w1: "\<exists>c. findSimilarAction ''memeber.timeot'' = Some c
        \<and> 6 / 10 \<le> normalizedSimilarity (toLowerCase ''memeber.timeot'') (toLowerCase c)"
    by blast
  from findSimilarAction_fuzzy_rule [of "''member.zzzzzzzzzzzz''"] h2 s2
  have w2: "findSimilarAction ''member.zzzzzzzzzzzz'' = Some ''member.timeout''"
    by simp
  from findSimilarAction_fuzzy_rule [of "''zzz''"] h3 s3
  have w3: "findSimilarAction ''zzz'' = None"
    by simp
  from findSimilarAction_fuzzy_rule [of "''zzz''"] a3 w3
  have w4: "resolveAction None (Some ''zzz'') = DynamicExtension"
    by simp
  from w1 w2 w3 w4 show ?thesis by blast
qed

subsection \<open>LLMService: retries and backoff\<close>

text \<open>
  The retry loop, from any point on. If the first successful call from
  \<open>attemptCount\<close> on is call \<open>k\<close> and the ceiling allows it, the loop stops after it;
  if no call below the ceiling succeeds, the loop runs to the ceiling and the
  statements after it throw.
\<close>

lemma doubling_upt:
  "map (\<lambda>i. (d::nat) * 2 ^ i) [0 ..< Suc n] = d # map (\<lambda>i. (d * 2) * 2 ^ i) [0 ..< n]"
  by (simp add: map_upt_Suc del: upt_Suc)


lemma attemptLoop_exhausted:
  "attemptCount \<le> retryAttempts svc
   \<Longrightarrow> (\<forall>j. attemptCount \<le> j \<and> j < retryAttempts svc \<longrightarrow> \<not> succeeds (backend j))
   \<Longrightarrow> (let g = attemptLoop parses backend userPrompt svc attemptCount lastError waited
        in calls g = retryAttempts svc
           \<and> delays g = waited @ map (\<lambda>i. retryDelay svc * 2 ^ i) [0 ..< retryAttempts svc - 1 - attemptCount]
           \<and> retryDelay (service g) = retryDelay svc * 2 ^ (retryAttempts svc - 1 - attemptCount)
           \<and> retryAttempts (service g) = retryAttempts svc
           \<and> outcome g = Throws ''response is not defined'')"
proof (induction parses backend userPrompt svc attemptCount lastError waited
       rule: attemptLoop.induct)
  case (1 parses backend userPrompt svc attemptCount lastError waited)
  show ?case
  proof (cases "attemptCount < retryAttempts svc")
    case False
    with "1.prems" show ?thesis
      by (subst attemptLoop.simps) (simp add: Let_def afterAllAttempts_def debugOutput_def)
  next
    case a: True
    with "1.prems" have nos: "\<not> succeeds (backend attemptCount)" by simp
    define err where "err = (case backend attemptCount of
                         ApiFailure e \<Rightarrow> e
                       | ApiContent content \<Rightarrow> ''Invalid or empty response from API'')"
    show ?thesis
    proof (cases "attemptCount + 1 < retryAttempts svc")
      case b: True
      define svc' where "svc' = svc\<lparr>retryDelay := retryDelay svc * 2\<rparr>"
      define g where "g = attemptLoop parses backend userPrompt svc' (attemptCount + 1) (Some err)
                          (waited @ [retryDelay svc])"
      have step: "attemptLoop parses backend userPrompt svc attemptCount lastError waited = g"
        using a b nos by (subst attemptLoop.simps) (simp add: Let_def err_def g_def svc'_def)
      obtain d where d: "retryAttempts svc - 1 - attemptCount = Suc d"
        using b by (cases "retryAttempts svc - 1 - attemptCount") simp_all
      then have d': "retryAttempts svc - 1 - (attemptCount + 1) = d" by simp
      have p1: "attemptCount + 1 \<le> retryAttempts (svc\<lparr>retryDelay := retryDelay svc * 2\<rparr>)"
        using b by simp
      have p2: "\<forall>j. attemptCount + 1 \<le> j \<and> j < retryAttempts (svc\<lparr>retryDelay := retryDelay svc * 2\<rparr>)
                   \<longrightarrow> \<not> succeeds (backend j)"
        using "1.prems" by simp
      have ih: "calls g = retryAttempts svc
           \<and> delays g = (waited @ [retryDelay svc]) @ map (\<lambda>i. retryDelay svc' * 2 ^ i) [0 ..< d]
           \<and> retryDelay (service g) = retryDelay svc' * 2 ^ d
           \<and> retryAttempts (service g) = retryAttempts svc
           \<and> outcome g = Throws ''response is not defined''"
        using "1.IH"(1) [OF a nos err_def b p1 p2]
        unfolding g_def svc'_def Let_def using d' by simp
      have sd: "retryDelay svc' = retryDelay svc * 2" by (simp add: svc'_def)
      show ?thesis
        unfolding step Let_def d doubling_upt using ih unfolding sd by simp
    next
      case b: False
      with a have e: "attemptCount + 1 = retryAttempts svc" by simp
      define g where "g = attemptLoop parses backend userPrompt svc (attemptCount + 1) (Some err) waited"
      have step: "attemptLoop parses backend userPrompt svc attemptCount lastError waited = g"
        using a b nos by (subst attemptLoop.simps) (simp add: Let_def err_def g_def)
      have p1: "attemptCount + 1 \<le> retryAttempts svc" using e by simp
      have p2: "\<forall>j. attemptCount + 1 \<le> j \<and> j < retryAttempts svc \<longrightarrow> \<not> succeeds (backend j)"
        using "1.prems" by simp
      have ih: "calls g = retryAttempts svc
           \<and> delays g = waited @ map (\<lambda>i. retryDelay svc * 2 ^ i) [0 ..< retryAttempts svc - 1 - (attemptCount + 1)]
           \<and> retryDelay (service g) = retryDelay svc * 2 ^ (retryAttempts svc - 1 - (attemptCount + 1))
           \<and> retryAttempts (service g) = retryAttempts svc
           \<and> outcome g = Throws ''response is not defined''"
        using "1.IH"(2) [OF a nos err_def b p1 p2] unfolding g_def Let_def by simp
      have z: "retryAttempts svc - 1 - (attemptCount + 1) = 0" "retryAttempts svc - 1 - attemptCount = 0"
        using e by simp_all
      show ?thesis unfolding step Let_def using ih unfolding z by simp
    qed
  qed
qed


lemma generateResponse_no_success:
  assumes "\<forall>j<retryAttempts svc. \<not> succeeds (backend j)"
  shows "calls (generateResponse parses backend svc systemPrompt userPrompt) = retryAttempts svc"
    and "outcome (generateResponse parses backend svc systemPrompt userPrompt)
           = Throws ''response is not defined''"
  using attemptLoop_exhausted [of 0 svc backend parses userPrompt None "[]"] assms
  by (simp_all add: generateResponse_def Let_def)









text \<open>
  When every attempt has failed, the statements after the loop throw before the
  fallback is reached, whatever \<^verbatim>\<open>useFallbackOnError\<close> says.
\<close>

lemma generateResponse_exhausted_throws:
  "\<forall>j<retryAttempts svc. \<not> succeeds (backend j)
     \<Longrightarrow> outcome (generateResponse parses backend svc systemPrompt userPrompt)
           = Throws ''response is not defined''"
  by (rule generateResponse_no_success(2))

text \<open>
  C1 (evaluation at the failing input). The service is as the constructor leaves it
  (three attempts, fallback enabled) and every call to the backend fails. After the
  third call \<^verbatim>\<open>generateResponse\<close> rejects with the \<^verbatim>\<open>ReferenceError\<close> of the debugging
  statements that follow the loop; \<^verbatim>\<open>_generateFallbackResponse\<close> is not called.
\<close>

theorem generateResponse_throws_before_fallback:
  "useFallbackOnError newLLMService
   \<and> outcome (generateResponse jsonParses deadBackend newLLMService ''system'' ''send hello 3 times'')
       = Throws ''response is not defined''
   \<and> calls (generateResponse jsonParses deadBackend newLLMService ''system'' ''send hello 3 times'') = 3"
  by code_simp

subsection \<open>LLMService: the fallback synthesizer\<close>

text \<open>
  C6 (the claim as stated fails). On \<^verbatim>\<open>send hello 3 times\<close> the synthesizer does not
  produce three steps with the content \<^verbatim>\<open>hello\<close>.
\<close>

theorem fallback_send_hello_counterexample:
  "\<not> (\<exists>p. generateFallbackResponse ''send hello 3 times'' = WritePlan p
          \<and> length (plan_steps p) = 3 \<and> plan_strategy p = ''sequential''
          \<and> list_all (\<lambda>st. ps_action st = ''message.create'' \<and> ps_content st = ''hello'')
                (plan_steps p))"
proof -
  have "generateFallbackResponse ''send hello 3 times'' =
          WritePlan \<lparr>plan_steps =
             [\<lparr>ps_tool = ''discord.request'', ps_action = ''message.create'',
               ps_content = ''Merhaba!'', ps_id = ''s1''\<rparr>,
              \<lparr>ps_tool = ''discord.request'', ps_action = ''message.create'',
               ps_content = ''Merhaba!'', ps_id = ''s2''\<rparr>,
              \<lparr>ps_tool = ''discord.request'', ps_action = ''message.create'',
               ps_content = ''Merhaba!'', ps_id = ''s3''\<rparr>],
             plan_strategy = ''sequential''\<rparr>"
    by code_simp
  then show ?thesis by auto
qed

text \<open>
  C6 (amended). On \<^verbatim>\<open>send hello 3 times\<close> the synthesizer produces a sequential plan of
  three \<^verbatim>\<open>message.create\<close> steps \<^verbatim>\<open>s1\<close>, \<^verbatim>\<open>s2\<close>, \<^verbatim>\<open>s3\<close> whose content is the default
  greeting \<^verbatim>\<open>Merhaba!\<close>: the content is taken from the prompt only when it stands
  between quotes. On \<^verbatim>\<open>send "hello" 3 times\<close> the content of the three steps is
  \<^verbatim>\<open>hello\<close>.
\<close>

theorem fallback_send_hello_plan:
  "generateFallbackResponse ''send hello 3 times'' =
      WritePlan \<lparr>plan_steps =
         [\<lparr>ps_tool = ''discord.request'', ps_action = ''message.create'',
           ps_content = ''Merhaba!'', ps_id = ''s1''\<rparr>,
          \<lparr>ps_tool = ''discord.request'', ps_action = ''message.create'',
           ps_content = ''Merhaba!'', ps_id = ''s2''\<rparr>,
          \<lparr>ps_tool = ''discord.request'', ps_action = ''message.create'',
           ps_content = ''Merhaba!'', ps_id = ''s3''\<rparr>],
         plan_strategy = ''sequential''\<rparr>
   \<and> generateFallbackResponse (''send '' @ [dq] @ ''hello'' @ [dq] @ '' 3 times'') =
      WritePlan \<lparr>plan_steps =
         [\<lparr>ps_tool = ''discord.request'', ps_action = ''message.create'',
           ps_content = ''hello'', ps_id = ''s1''\<rparr>,
          \<lparr>ps_tool = ''discord.request'', ps_action = ''message.create'',
           ps_content = ''hello'', ps_id = ''s2''\<rparr>,
          \<lparr>ps_tool = ''discord.request'', ps_action = ''message.create'',
           ps_content = ''hello'', ps_id = ''s3''\<rparr>],
         plan_strategy = ''sequential''\<rparr>"
  by code_simp

subsection \<open>LLMService: the JSON repair\<close>

text \<open>
  C3 (the claim as stated fails). The reply \<^verbatim>\<open>I can't do that\<close> is repaired to a text that
  \<^verbatim>\<open>JSON.parse\<close> rejects, and \<^verbatim>\<open>_fixJsonFormat\<close> returns that text, in which the single
  quote has become a double quote: not the original.
\<close>

theorem fixJsonFormat_unparseable_counterexample:
  "\<not> jsonParses (repairJson refusal)
   \<and> fixJsonFormat jsonParses (TextContent refusal) = TextContent (''I can'' @ [dq] @ ''t do that'')
   \<and> fixJsonFormat jsonParses (TextContent refusal) \<noteq> TextContent refusal"
  by code_simp

text \<open>
  No step of the repair adds a single quote, and the fourth step turns every single
  quote into a double quote: the text that comes back holds no single quote.
\<close>

lemma replaceAll_keeps_out:
  "(\<And>s out rest. m s = Some (out, rest) \<Longrightarrow> q \<notin> set s \<Longrightarrow> q \<notin> set out \<and> q \<notin> set rest)
     \<Longrightarrow> q \<notin> set s \<Longrightarrow> q \<notin> set (replaceAll m s)"
proof (induction m s rule: replaceAll.induct)
  case (1 m)
  show ?case by simp
next
  case (2 m c cs)
  show ?case
  proof (cases "m (c # cs)")
    case None
    with 2 show ?thesis by simp
  next
    case (Some p)
    obtain out rest where p: "p = (out, rest)" by (cases p)
    show ?thesis
    proof (cases "length rest \<le> length cs")
      case True
      from "2.prems"(1) [OF Some [unfolded p] "2.prems"(2)]
      have o: "q \<notin> set out" and r: "q \<notin> set rest" by simp_all
      from "2.IH"(2) [OF Some p [symmetric] True "2.prems"(1) r] o Some p True
      show ?thesis by simp
    next
      case False
      from "2.prems"(2) have "q \<notin> set cs" by simp
      from "2.IH"(3) [OF Some p [symmetric] False "2.prems"(1) this] "2.prems"(2) Some p False
      show ?thesis by simp
    qed
  qed
qed

lemma dropWhile_ConsD: "dropWhile P xs = y # ys \<Longrightarrow> y \<in> set xs \<and> set ys \<subseteq> set xs"
  using set_dropWhileD [of _ P xs] by (metis list.set_intros(1) list.set_intros(2) subsetI)

lemma fenceAt_keeps_out:
  "fenceAt marker s = Some (out, rest) \<Longrightarrow> q \<notin> set s \<Longrightarrow> q \<notin> set out \<and> q \<notin> set rest"
  by (auto simp: fenceAt_def split: if_splits dest!: set_dropWhileD in_set_dropD)

lemma trailingCommaAt_keeps_out:
  "trailingCommaAt s = Some (out, rest) \<Longrightarrow> q \<notin> set s \<Longrightarrow> q \<notin> set out \<and> q \<notin> set rest"
  by (auto simp: trailingCommaAt_def split: list.splits if_splits
           dest!: dropWhile_ConsD set_takeWhileD)

lemma keyAt_keeps_out:
  "keyAt s = Some (out, rest) \<Longrightarrow> q \<notin> set s \<Longrightarrow> q \<noteq> dq \<Longrightarrow> q \<noteq> CHR '':''
     \<Longrightarrow> q \<notin> set out \<and> q \<notin> set rest"
  by (auto simp: keyAt_def split: list.splits if_splits dest!: dropWhile_ConsD set_takeWhileD)

lemma gapAt_keeps_out:
  "gapAt c1 c2 s = Some (out, rest) \<Longrightarrow> q \<notin> set s \<Longrightarrow> q \<noteq> CHR '','' \<Longrightarrow> q \<noteq> nl
     \<Longrightarrow> q \<notin> set out \<and> q \<notin> set rest"
  by (auto simp: gapAt_def split: list.splits if_splits dest!: dropWhile_ConsD)

lemma splitOn_keeps_out: "q \<notin> set s \<Longrightarrow> \<forall>l\<in>set (splitOn sep s). q \<notin> set l"
  by (induction s) (auto split: list.splits)

lemma trim_subset: "set (trim l) \<subseteq> set l"
proof -
  have "set (trim l) \<subseteq> set (rev (dropWhile isSpace l))"
    unfolding trim_def using set_dropWhileD [of _ isSpace "rev (dropWhile isSpace l)"] by auto
  also have "\<dots> \<subseteq> set l" using set_dropWhileD [of _ isSpace l] by auto
  finally show ?thesis .
qed

lemma fixLines_keeps_out:
  "\<forall>l\<in>set ls. q \<notin> set l \<Longrightarrow> q \<noteq> CHR '','' \<Longrightarrow> \<forall>l\<in>set (fixLines ls). q \<notin> set l"
proof (induction ls rule: fixLines.induct)
  case (1 l l' ls)
  then have "q \<notin> set (trim l)" using trim_subset [of l] by auto
  with 1 show ?case by auto
qed simp_all

lemma joinWith_keeps_out:
  "\<forall>l\<in>set ls. q \<notin> set l \<Longrightarrow> q \<noteq> sep \<Longrightarrow> q \<notin> set (joinWith sep ls)"
  by (induction sep ls rule: joinWith.induct) auto

lemma sliceToBraces_subset: "set (sliceToBraces s) \<subseteq> set s"
  by (auto simp: sliceToBraces_def split: option.splits if_splits dest!: in_set_takeD in_set_dropD)

lemma set_tlD: "x \<in> set (tl xs) \<Longrightarrow> x \<in> set xs"
  by (cases xs) simp_all

lemma openStepsArray_keeps_out:
  "q \<notin> set s \<Longrightarrow> q \<notin> set ([dq] @ ''steps'' @ [dq] @ '': ['') \<Longrightarrow> q \<notin> set (openStepsArray s)"
proof (induction s)
  case Nil
  show ?case by simp
next
  case (Cons c cs)
  have "set (tl (dropWhile isSpace (drop 7 (c # cs)))) \<subseteq> set (c # cs)"
  proof
    fix x assume "x \<in> set (tl (dropWhile isSpace (drop 7 (c # cs))))"
    then have "x \<in> set (dropWhile isSpace (drop 7 (c # cs)))" by (rule set_tlD)
    then have "x \<in> set (drop 7 (c # cs))" by (rule set_dropWhileD)
    then show "x \<in> set (c # cs)" by (rule in_set_dropD)
  qed
  with Cons show ?case by auto
qed

lemma closeStepsArray_keeps_out:
  "q \<notin> set s \<Longrightarrow> q \<noteq> CHR '']'' \<Longrightarrow> q \<noteq> CHR ''}'' \<Longrightarrow> q \<notin> set (closeStepsArray s)"
  by (induction s) auto

lemma sq_distinct:
  "sq \<noteq> dq" "sq \<noteq> nl" "sq \<noteq> CHR '',''" "sq \<noteq> CHR '':''" "sq \<noteq> CHR ''}''" "sq \<noteq> CHR '']''"
  "sq \<notin> set ([dq] @ ''steps'' @ [dq] @ '': ['')"
  by (simp_all add: sq_def dq_def nl_def)

lemma repairJson_no_single_quote: "sq \<notin> set (repairJson content)"
proof -
  define j3 where "j3 = sliceToBraces (replaceAll (fenceAt ''```'') (replaceAll (fenceAt ''```json'') content))"
  define j4 where "j4 = map (\<lambda>c. if c = sq then dq else c) j3"
  define j5 where "j5 = replaceAll trailingCommaAt j4"
  define j6 where "j6 = replaceAll keyAt j5"
  define j7 where "j7 = replaceAll (gapAt (CHR ''}'') (CHR ''{'')) j6"
  define j8 where "j8 = replaceAll (gapAt (CHR ''}'') dq) j7"
  define j9 where "j9 = replaceAll (gapAt dq (CHR ''{'')) j8"
  define j10 where "j10 = replaceAll (gapAt (CHR ''}'') (CHR ''{'')) j9"
  define j11 where "j11 = replaceAll (gapAt (CHR ''}'') (CHR ''{'')) j10"
  define j12 where "j12 = joinWith nl (fixLines (splitOn nl j11))"
  define j13 where "j13 = balance (CHR ''{'') (CHR ''}'') j12"
  have r: "repairJson content = balance (CHR ''['') (CHR '']'') j13"
    by (simp add: repairJson_def Let_def j3_def j4_def j5_def j6_def j7_def j8_def j9_def j10_def
          j11_def j12_def j13_def)
  have 4: "sq \<notin> set j4" by (auto simp: j4_def sq_distinct)
  have 5: "sq \<notin> set j5" unfolding j5_def
    by (rule replaceAll_keeps_out [OF trailingCommaAt_keeps_out 4])
  have 6: "sq \<notin> set j6" unfolding j6_def
    by (rule replaceAll_keeps_out [OF keyAt_keeps_out 5]) (simp_all add: sq_distinct)
  have 7: "sq \<notin> set j7" unfolding j7_def
    by (rule replaceAll_keeps_out [OF gapAt_keeps_out 6]) (simp_all add: sq_distinct)
  have 8: "sq \<notin> set j8" unfolding j8_def
    by (rule replaceAll_keeps_out [OF gapAt_keeps_out 7]) (simp_all add: sq_distinct)
  have 9: "sq \<notin> set j9" unfolding j9_def
    by (rule replaceAll_keeps_out [OF gapAt_keeps_out 8]) (simp_all add: sq_distinct)
  have 10: "sq \<notin> set j10" unfolding j10_def
    by (rule replaceAll_keeps_out [OF gapAt_keeps_out 9]) (simp_all add: sq_distinct)
  have 11: "sq \<notin> set j11" unfolding j11_def
    by (rule replaceAll_keeps_out [OF gapAt_keeps_out 10]) (simp_all add: sq_distinct)
  have 12: "sq \<notin> set j12" unfolding j12_def
    using joinWith_keeps_out [OF fixLines_keeps_out [OF splitOn_keeps_out [OF 11]]]
    by (simp add: sq_distinct)
  have 13: "sq \<notin> set j13" unfolding j13_def balance_def using 12 by (auto simp: sq_distinct)
  show ?thesis unfolding r balance_def using 13 by (auto simp: sq_distinct)
qed

lemma lastAttempt_no_single_quote:
  assumes "sq \<notin> set s"
  shows "sq \<notin> set (lastAttempt s)"
proof -
  have o: "sq \<notin> set (openStepsArray s)"
    by (rule openStepsArray_keeps_out [OF assms sq_distinct(7)])
  have c: "sq \<notin> set (closeStepsArray (openStepsArray s))"
    by (rule closeStepsArray_keeps_out [OF o sq_distinct(6) sq_distinct(5)])
  from assms o c show ?thesis by (simp add: lastAttempt_def Let_def)
qed

lemma fixJsonFormat_no_single_quote:
  "fixJsonFormat parses (TextContent content) = TextContent result \<Longrightarrow> sq \<notin> set result"
  using repairJson_no_single_quote [of content] lastAttempt_no_single_quote [of "repairJson content"]
  by (auto simp: fixJsonFormat_def Let_def split: if_splits)

text \<open>
  A text on which no expression of the repair matches comes back as it was. Each
  expression needs one of eight characters: the backtick for the code fences, the
  opening brace for the slice and the balance of the braces, the single quote, the
  comma, the colon for the keys and the lines, the closing brace and the double quote
  for the gaps, the lines and the \<^verbatim>\<open>"steps"\<close> key, and the opening bracket for the balance
  of the brackets.
\<close>

lemma replaceAll_no_match:
  "(\<And>t. set t \<subseteq> set s \<Longrightarrow> m t = None) \<Longrightarrow> replaceAll m s = s"
proof (induction s)
  case Nil
  show ?case by simp
next
  case (Cons c cs)
  have "m (c # cs) = None" by (rule Cons.prems) simp
  moreover have "replaceAll m cs = cs"
  proof (rule Cons.IH)
    fix t assume "set t \<subseteq> set cs"
    then have "set t \<subseteq> set (c # cs)" by auto
    then show "m t = None" by (rule Cons.prems)
  qed
  ultimately show ?case by simp
qed

lemma startsWith_subset: "startsWith s p \<Longrightarrow> set p \<subseteq> set s"
  unfolding startsWith_def by (metis set_take_subset)

lemma fenceAt_no_match: "marker \<noteq> [] \<Longrightarrow> hd marker \<notin> set s \<Longrightarrow> fenceAt marker s = None"
  using startsWith_subset [of s marker] by (cases marker) (auto simp: fenceAt_def)

lemma trailingCommaAt_no_match: "CHR '','' \<notin> set s \<Longrightarrow> trailingCommaAt s = None"
  by (auto simp: trailingCommaAt_def split: list.splits)

lemma keyAt_no_match: "CHR '':'' \<notin> set s \<Longrightarrow> keyAt s = None"
  by (auto simp: keyAt_def split: list.splits dest!: dropWhile_ConsD)

lemma gapAt_no_match: "c1 \<notin> set s \<Longrightarrow> gapAt c1 c2 s = None"
  by (auto simp: gapAt_def split: list.splits)

lemma splitOn_not_Nil: "splitOn sep s \<noteq> []"
  by (induction s) (auto split: list.splits)

lemma joinWith_splitOn: "joinWith sep (splitOn sep s) = s"
proof (induction s)
  case Nil
  show ?case by simp
next
  case (Cons c cs)
  obtain l ls where e: "splitOn sep cs = l # ls"
    using splitOn_not_Nil [of sep cs] by (cases "splitOn sep cs") auto
  with Cons show ?case by (cases ls) auto
qed

lemma endsWithChar_mem: "endsWithChar s c \<Longrightarrow> c \<in> set s"
  by (auto simp: endsWithChar_def)

lemma fixLines_unchanged:
  "\<forall>l\<in>set ls. CHR '':'' \<notin> set l \<and> CHR ''}'' \<notin> set l \<and> dq \<notin> set l \<and> sq \<notin> set l
     \<Longrightarrow> fixLines ls = ls"
proof (induction ls rule: fixLines.induct)
  case (1 l l' ls)
  have "set (trim l) \<subseteq> set l" by (rule trim_subset)
  with 1(2) have "CHR '':'' \<notin> set (trim l)" "\<not> endsWithChar (trim l) (CHR ''}'')"
    "\<not> endsWithChar (trim l) dq" "\<not> endsWithChar (trim l) sq"
    using endsWithChar_mem [of "trim l"] by auto
  then have "\<not> needsComma (trim l) (trim l')" by (simp add: needsComma_def)
  with 1 show ?case by simp
qed simp_all

lemma balance_unchanged: "opening \<notin> set s \<Longrightarrow> balance opening closing s = s"
proof -
  assume "opening \<notin> set s"
  then have "filter (\<lambda>x. x = opening) s = []" by (induction s) auto
  then show ?thesis by (simp add: balance_def countChar_def)
qed

lemma includesStr_subset: "includesStr s t \<Longrightarrow> set t \<subseteq> set s"
proof (induction s)
  case Nil
  then show ?case by simp
next
  case (Cons c cs)
  then show ?case using startsWith_subset [of "c # cs" t] by auto
qed

lemma lastAttempt_unchanged: "dq \<notin> set s \<Longrightarrow> lastAttempt s = s"
  using includesStr_subset [of s "[dq] @ ''steps'' @ [dq]"] by (auto simp: lastAttempt_def)

lemma sliceToBraces_unchanged: "CHR ''{'' \<notin> set s \<Longrightarrow> sliceToBraces s = s"
  by (simp add: sliceToBraces_def indexOfChar_def)

lemma repairJson_unchanged:
  assumes "set content \<inter> set (''`{}[,:'' @ [sq, dq]) = {}"
  shows "repairJson content = content"
proof -
  from assms have bt: "CHR ''`'' \<notin> set content" and ob: "CHR ''{'' \<notin> set content"
    and cb: "CHR ''}'' \<notin> set content" and br: "CHR ''['' \<notin> set content"
    and cm: "CHR '','' \<notin> set content" and cl: "CHR '':'' \<notin> set content"
    and s: "sq \<notin> set content" and d: "dq \<notin> set content"
    by auto
  have f1: "replaceAll (fenceAt ''```json'') content = content"
    by (rule replaceAll_no_match, rule fenceAt_no_match) (use bt in auto)
  have f2: "replaceAll (fenceAt ''```'') content = content"
    by (rule replaceAll_no_match, rule fenceAt_no_match) (use bt in auto)
  have m: "map (\<lambda>c. if c = sq then dq else c) content = content"
    using s by (induction content) auto
  have t: "replaceAll trailingCommaAt content = content"
    by (rule replaceAll_no_match, rule trailingCommaAt_no_match) (use cm in auto)
  have k: "replaceAll keyAt content = content"
    by (rule replaceAll_no_match, rule keyAt_no_match) (use cl in auto)
  have g1: "replaceAll (gapAt (CHR ''}'') c2) content = content" for c2
    by (rule replaceAll_no_match, rule gapAt_no_match) (use cb in auto)
  have g2: "replaceAll (gapAt dq c2) content = content" for c2
    by (rule replaceAll_no_match, rule gapAt_no_match) (use d in auto)
  have "\<forall>l\<in>set (splitOn nl content).
          CHR '':'' \<notin> set l \<and> CHR ''}'' \<notin> set l \<and> dq \<notin> set l \<and> sq \<notin> set l"
    using splitOn_keeps_out [OF cl, of nl] splitOn_keeps_out [OF cb, of nl]
      splitOn_keeps_out [OF d, of nl] splitOn_keeps_out [OF s, of nl] by blast
  then have "fixLines (splitOn nl content) = splitOn nl content" by (rule fixLines_unchanged)
  then have l: "joinWith nl (fixLines (splitOn nl content)) = content"
    by (simp add: joinWith_splitOn)
  have b1: "balance (CHR ''{'') (CHR ''}'') content = content"
    by (rule balance_unchanged [OF ob])
  have b2: "balance (CHR ''['') (CHR '']'') content = content"
    by (rule balance_unchanged [OF br])
  show ?thesis
    by (simp add: repairJson_def Let_def f1 f2 sliceToBraces_unchanged [OF ob] m t k g1 g2 l b1 b2)
qed

lemma fixJsonFormat_unchanged:
  assumes "set content \<inter> set (''`{}[,:'' @ [sq, dq]) = {}"
  shows "fixJsonFormat parses (TextContent content) = TextContent content"
proof -
  from assms have "dq \<notin> set content" by auto
  then show ?thesis
    by (simp add: fixJsonFormat_def Let_def repairJson_unchanged [OF assms] lastAttempt_unchanged)
qed

text \<open>
  C3 (amended). When the repaired text fails to parse, \<^verbatim>\<open>_fixJsonFormat\<close> returns the
  repaired text after a last patch of its \<^verbatim>\<open>"steps"\<close> key (an opening bracket behind the
  key and a closing one before the final brace), not the original text. What comes
  back is the original only where the repair and the patch have changed nothing:
  never for a text that holds a single quote, and always for a text that holds no
  backtick, brace, opening bracket, comma, colon or quote.
\<close>

theorem fixJsonFormat_returns_repaired_text:
  "(\<not> parses (repairJson text)
      \<longrightarrow> fixJsonFormat parses (TextContent text) = TextContent (lastAttempt (repairJson text)))
   \<and> (sq \<in> set text \<longrightarrow> fixJsonFormat parses (TextContent text) \<noteq> TextContent text)
   \<and> (set text \<inter> set (''`{}[,:'' @ [sq, dq]) = {}
      \<longrightarrow> fixJsonFormat parses (TextContent text) = TextContent text)"
proof -
  have a: "\<not> parses (repairJson text)
      \<longrightarrow> fixJsonFormat parses (TextContent text) = TextContent (lastAttempt (repairJson text))"
    by (simp add: fixJsonFormat_def Let_def)
  have b: "sq \<in> set text \<longrightarrow> fixJsonFormat parses (TextContent text) \<noteq> TextContent text"
    using fixJsonFormat_no_single_quote [of parses "text" "text"] by blast
  have c: "set text \<inter> set (''`{}[,:'' @ [sq, dq]) = {}
      \<longrightarrow> fixJsonFormat parses (TextContent text) = TextContent text"
    using fixJsonFormat_unchanged [of "text" parses] by blast
  from a b c show ?thesis by blast
qed

text \<open>
  The three cases on replies of the model. \<^verbatim>\<open>{steps: none}\<close> is repaired to
  \<^verbatim>\<open>{"steps": none}\<close>, which does not parse, and the last patch makes
  \<^verbatim>\<open>{"steps": [ none]}\<close> of it, which is returned. \<^verbatim>\<open>I can't do that\<close> holds a single
  quote and does not come back as it was. \<^verbatim>\<open>hello\<close> comes back as it was.
\<close>

theorem fixJsonFormat_returns_repaired_text_witness:
  "\<not> jsonParses (repairJson ''{steps: none}'')
   \<and> repairJson ''{steps: none}'' = [CHR ''{'', dq] @ ''steps'' @ [dq] @ '': none}''
   \<and> lastAttempt (repairJson ''{steps: none}'') = [CHR ''{'', dq] @ ''steps'' @ [dq] @ '': [ none]}''
   \<and> fixJsonFormat jsonParses (TextContent ''{steps: none}'')
        = TextContent ([CHR ''{'', dq] @ ''steps'' @ [dq] @ '': [ none]}'')
   \<and> sq \<in> set refusal
   \<and> fixJsonFormat jsonParses (TextContent refusal) \<noteq> TextContent refusal
   \<and> set ''hello'' \<inter> set (''`{}[,:'' @ [sq, dq]) = {}
   \<and> fixJsonFormat jsonParses (TextContent ''hello'') = TextContent ''hello''"
proof -
  have a: "\<not> jsonParses (repairJson ''{steps: none}'')" by code_simp
  have b: "repairJson ''{steps: none}'' = [CHR ''{'', dq] @ ''steps'' @ [dq] @ '': none}''"
    by code_simp
  have c: "lastAttempt (repairJson ''{steps: none}'')
             = [CHR ''{'', dq] @ ''steps'' @ [dq] @ '': [ none]}''"
    by code_simp
  have d: "sq \<in> set refusal" by (simp add: refusal_def)
  have e: "set ''hello'' \<inter> set (''`{}[,:'' @ [sq, dq]) = {}"
    by (simp add: sq_def dq_def)
  note t1 = fixJsonFormat_returns_repaired_text [of jsonParses "''{steps: none}''"]
  note t2 = fixJsonFormat_returns_repaired_text [of jsonParses refusal]
  note t3 = fixJsonFormat_returns_repaired_text [of jsonParses "''hello''"]
  from t1 a have f: "fixJsonFormat jsonParses (TextContent ''{steps: none}'')
                      = TextContent (lastAttempt (repairJson ''{steps: none}''))"
    by blast
  from f c have g: "fixJsonFormat jsonParses (TextContent ''{steps: none}'')
                      = TextContent ([CHR ''{'', dq] @ ''steps'' @ [dq] @ '': [ none]}'')"
    by simp
  from t2 d have h: "fixJsonFormat jsonParses (TextContent refusal) \<noteq> TextContent refusal"
    by blast
  from t3 e have i: "fixJsonFormat jsonParses (TextContent ''hello'') = TextContent ''hello''"
    by blast
  from a b c g d h e i show ?thesis by blast
qed

subsection \<open>ApprovalGate\<close>

lemma awaitReactions_None:
  "awaitReactions accepts time rs = None \<longleftrightarrow> (\<forall>r\<in>set rs. \<not> (r_time r < time \<and> accepts r))"
  by (induction rs) auto

lemma awaitReactions_requester_only:
  "awaitReactions (approvalFilter a) time (filter (\<lambda>r. r_user r = a) rs)
     = awaitReactions (approvalFilter a) time rs"
  by (induction rs) (auto simp: approvalFilter_def)

text \<open>
  C7. If no accepting or rejecting reaction of the requester arrives within the
  window of 30000 ms, the session ends as expired and no step of the plan reaches the
  Action Executor. The reactions of other users have no effect at all: the outcome is
  the outcome on the requester's reactions alone.
\<close>

theorem requestPlanApproval_expires_without_requester:
  "((\<forall>r\<in>set reactions. r_user r = requester \<and> (r_emoji r = CheckMark \<or> r_emoji r = CrossMark)
         \<longrightarrow> 30000 \<le> r_time r)
      \<longrightarrow> requestPlanApproval requester steps reactions = (Expired, []))
   \<and> requestPlanApproval requester steps reactions
       = requestPlanApproval requester steps (filter (\<lambda>r. r_user r = requester) reactions)"
proof -
  have a: "(\<forall>r\<in>set reactions. r_user r = requester \<and> (r_emoji r = CheckMark \<or> r_emoji r = CrossMark)
         \<longrightarrow> 30000 \<le> r_time r)
      \<longrightarrow> requestPlanApproval requester steps reactions = (Expired, [])"
  proof
    assume h: "\<forall>r\<in>set reactions. r_user r = requester \<and> (r_emoji r = CheckMark \<or> r_emoji r = CrossMark)
         \<longrightarrow> 30000 \<le> r_time r"
    then have "awaitReactions (approvalFilter requester) approvalWindow reactions = None"
      unfolding awaitReactions_None by (auto simp: approvalFilter_def approvalWindow_def)
    then show "requestPlanApproval requester steps reactions = (Expired, [])"
      by (simp add: requestPlanApproval_def)
  qed
  have b: "requestPlanApproval requester steps reactions
       = requestPlanApproval requester steps (filter (\<lambda>r. r_user r = requester) reactions)"
    by (simp add: requestPlanApproval_def awaitReactions_requester_only)
  from a b show ?thesis by simp
qed

theorem requestPlanApproval_expires_without_requester_witness:
  "requestPlanApproval ''alice'' banPlan bystanderReactions = (Expired, [])
   \<and> requestPlanApproval ''mallory'' banPlan bystanderReactions = (Approved, banPlan)
   \<and> requestPlanApproval ''mallory'' banPlan
        [\<lparr>r_time = 1000, r_emoji = CheckMark, r_user = ''mallory''\<rparr>] = (Approved, banPlan)"
proof -
  have h: "\<forall>r\<in>set bystanderReactions.
             r_user r = ''alice'' \<and> (r_emoji r = CheckMark \<or> r_emoji r = CrossMark)
               \<longrightarrow> 30000 \<le> r_time r"
    by (simp add: bystanderReactions_def)
  have f: "filter (\<lambda>r. r_user r = ''mallory'') bystanderReactions
             = [\<lparr>r_time = 1000, r_emoji = CheckMark, r_user = ''mallory''\<rparr>]"
    by (simp add: bystanderReactions_def)
  have e: "requestPlanApproval ''mallory'' banPlan
        [\<lparr>r_time = 1000, r_emoji = CheckMark, r_user = ''mallory''\<rparr>] = (Approved, banPlan)"
    by (simp add: requestPlanApproval_def approvalFilter_def approvalWindow_def
          executeApprovedPlan_def banPlan_def)
  from h f e
    requestPlanApproval_expires_without_requester [of bystanderReactions "''alice''" banPlan]
    requestPlanApproval_expires_without_requester [of bystanderReactions "''mallory''" banPlan]
  show ?thesis by simp
qed

end
